theory Spec2Isabelle
  imports Main "HOL-Library.Code_Target_Nat"
begin

section \<open>The element type and the world of element operations\<close>

text \<open>
  \<^verbatim>\<open>Vector<T>\<close> is a template. The element type \<open>T\<close> is modelled by the compile-time
  traits the container queries (\<^verbatim>\<open>std::is_nothrow_move_constructible_v\<close>,
  \<^verbatim>\<open>std::is_copy_constructible_v\<close>, \<^verbatim>\<open>std::is_nothrow_move_assignable_v\<close>), by the
  state a moved-from object is left in, by the value of a value-initialised object and by
  \<^verbatim>\<open>sizeof(T)\<close>, which is at least 1.
  An object's value is an \<open>'a\<close>; a copy or a move gives the new object the value of its
  source, and a move leaves the source holding \<open>moved_from T x\<close>.
\<close>

record 'a elem_type =
  nothrow_move_constructible :: bool
  copy_constructible :: bool
  nothrow_move_assignable :: bool
  moved_from :: "'a \<Rightarrow> 'a"
  value_init :: 'a
  sizeof :: nat

text \<open>
  Element constructors and assignments may throw. The world holds the schedule of these
  failures (\<open>op_faults\<close>: one entry is consumed by every element operation that may throw,
  \<open>True\<close> meaning that this invocation throws; an exhausted schedule means no failure),
  the schedule of allocation failures, and the tally an instrumented element type and
  allocator would keep: successful copy, move and other constructions, copy and move
  assignments, destructor calls and allocations. \<open>ReleasedLive\<close> counts the objects
  whose storage was handed back by \<^verbatim>\<open>~RawMemory\<close> while they were still constructed
  (they are never destroyed).
  Sizes are \<open>nat\<close>, and \<^verbatim>\<open>size_t\<close> is taken to be 64 bits wide. The computations of
  the source that can wrap around are written out where they occur: \<^verbatim>\<open>n * sizeof(T)\<close>
  in \<^verbatim>\<open>RawMemory::Allocate\<close>, \<^verbatim>\<open>size_ * 2\<close> in \<^verbatim>\<open>EmplaceBack\<close> and
  \<^verbatim>\<open>EmplaceWithRealloc\<close>, and \<^verbatim>\<open>size_ - index\<close> in \<^verbatim>\<open>EmplaceWithRealloc\<close>.
\<close>

definition size_t_range :: nat where
  "size_t_range = 2 ^ 64"

datatype event =
  Copied | Moved | Constructed | CopyAssigned | MoveAssigned | Destroyed | Allocated | ReleasedLive

record world =
  op_faults :: "bool list"
  alloc_faults :: "bool list"
  tally :: "event \<Rightarrow> nat"

definition count :: "event \<Rightarrow> nat \<Rightarrow> world \<Rightarrow> world" where
  "count ev n w = w\<lparr>tally := (tally w)(ev := tally w ev + n)\<rparr>"

datatype exn = bad_alloc | element_failure

text \<open>
  An operation returns normally with a result and the state it leaves, throws leaving a
  state behind, or has undefined behaviour (a failed \<^verbatim>\<open>assert\<close>, a read of a slot that
  holds no object, an access outside the block).
\<close>

datatype ('r, 's) outcome = Returned 'r 's | Threw exn 's | Undefined

definition throws_next :: "world \<Rightarrow> bool \<times> world" where
  "throws_next w =
     (case op_faults w of
        [] \<Rightarrow> (False, w)
      | f # fs \<Rightarrow> (f, w\<lparr>op_faults := fs\<rparr>))"

definition copy_construct :: "'a \<Rightarrow> world \<Rightarrow> ('a, world) outcome" where
  "copy_construct x w =
     (case throws_next w of
        (True, w') \<Rightarrow> Threw element_failure w'
      | (False, w') \<Rightarrow> Returned x (count Copied 1 w'))"

text \<open>A move construction returns the new object's value and the value left in the source.\<close>

definition move_construct :: "'a elem_type \<Rightarrow> 'a \<Rightarrow> world \<Rightarrow> ('a \<times> 'a, world) outcome" where
  "move_construct T x w =
     (if nothrow_move_constructible T
      then Returned (x, moved_from T x) (count Moved 1 w)
      else (case throws_next w of
              (True, w') \<Rightarrow> Threw element_failure w'
            | (False, w') \<Rightarrow> Returned (x, moved_from T x) (count Moved 1 w')))"

definition value_construct :: "'a elem_type \<Rightarrow> world \<Rightarrow> ('a, world) outcome" where
  "value_construct T w =
     (case throws_next w of
        (True, w') \<Rightarrow> Threw element_failure w'
      | (False, w') \<Rightarrow> Returned (value_init T) (count Constructed 1 w'))"

text \<open>An assignment that throws is taken to leave both objects as they were.\<close>

definition copy_assign :: "'a \<Rightarrow> world \<Rightarrow> ('a, world) outcome" where
  "copy_assign x w =
     (case throws_next w of
        (True, w') \<Rightarrow> Threw element_failure w'
      | (False, w') \<Rightarrow> Returned x (count CopyAssigned 1 w'))"

definition move_assign :: "'a elem_type \<Rightarrow> 'a \<Rightarrow> world \<Rightarrow> ('a \<times> 'a, world) outcome" where
  "move_assign T x w =
     (if nothrow_move_assignable T
      then Returned (x, moved_from T x) (count MoveAssigned 1 w)
      else (case throws_next w of
              (True, w') \<Rightarrow> Threw element_failure w'
            | (False, w') \<Rightarrow>
                Returned (x, moved_from T x) (count MoveAssigned 1 w')))"

text \<open>
  What a constructor of \<open>T\<close> is called with: an lvalue of type \<open>T\<close> (copy construction),
  an rvalue of type \<open>T\<close> (move construction), or arguments of another constructor, which
  yields the given value.
\<close>

datatype 'a ctor_args = CopyOf 'a | MoveOf 'a | Args 'a

fun arg_value :: "'a ctor_args \<Rightarrow> 'a" where
  "arg_value (CopyOf x) = x"
| "arg_value (MoveOf x) = x"
| "arg_value (Args x) = x"

fun construct_from :: "'a elem_type \<Rightarrow> 'a ctor_args \<Rightarrow> world \<Rightarrow> ('a, world) outcome" where
  "construct_from T (CopyOf x) w = copy_construct x w"
| "construct_from T (MoveOf x) w =
     (case move_construct T x w of
        Returned (y, _) w' \<Rightarrow> Returned y w'
      | Threw e w' \<Rightarrow> Threw e w'
      | Undefined \<Rightarrow> Undefined)"
| "construct_from T (Args x) w =
     (case throws_next w of
        (True, w') \<Rightarrow> Threw element_failure w'
      | (False, w') \<Rightarrow> Returned x (count Constructed 1 w'))"

text \<open>
  The arguments \<^verbatim>\<open>Args&&... args\<close> of the vector's operations are references:
  \<^verbatim>\<open>PushBack(const T&)\<close> and \<^verbatim>\<open>Insert(pos, const T&)\<close> pass an lvalue reference on,
  \<^verbatim>\<open>PushBack(T&&)\<close> and \<^verbatim>\<open>Insert(pos, T&&)\<close> an rvalue reference. A reference names an
  object outside the vector, given by its value, or the element of the vector itself at
  an index (\<^verbatim>\<open>v.PushBack(v[0])\<close>). The object is read when the constructor runs:
  \<open>read_args own args\<close> is what the constructor is called with when the block of the
  vector is \<open>own\<close> at that moment (\<open>None\<close>: a reference to a slot that holds no object),
  and \<open>moved_out T own args\<close> is that block once a move construction has emptied the
  element it was given.
\<close>

datatype 'a ref = Outside 'a | Element nat

datatype 'a call_args = Lvalue "'a ref" | Rvalue "'a ref" | Other 'a

section \<open>Raw storage\<close>

text \<open>
  A block of \<^verbatim>\<open>capacity_\<close> slots. A slot is \<open>None\<close> while it is raw memory and
  \<open>Some x\<close> while it holds a constructed object of value \<open>x\<close>.
\<close>

record 'a RawMemory =
  buffer :: "'a option list"
  capacity :: nat

text \<open>
  \<^verbatim>\<open>Allocate(n)\<close> asks \<^verbatim>\<open>operator new\<close> for \<^verbatim>\<open>n * sizeof(T)\<close> bytes, a product computed
  in \<^verbatim>\<open>size_t\<close>: the block it gets has room for \<open>block_slots T n\<close> objects, which is \<open>n\<close>
  unless the product wraps around.
\<close>

definition block_slots :: "'a elem_type \<Rightarrow> nat \<Rightarrow> nat" where
  "block_slots T n = ((n * sizeof T) mod size_t_range) div sizeof T"

definition Allocate :: "'a elem_type \<Rightarrow> nat \<Rightarrow> world \<Rightarrow> ('a option list, world) outcome" where
  "Allocate T n w =
     (if n = 0 then Returned [] w
      else (case alloc_faults w of
              [] \<Rightarrow> Returned (replicate (block_slots T n) None) (count Allocated 1 w)
            | f # fs \<Rightarrow>
                if f then Threw bad_alloc (w\<lparr>alloc_faults := fs\<rparr>)
                else Returned (replicate (block_slots T n) None)
                       (count Allocated 1 (w\<lparr>alloc_faults := fs\<rparr>))))"

definition RawMemory_default :: "'a RawMemory" where
  "RawMemory_default = \<lparr>buffer = [], capacity = 0\<rparr>"

definition RawMemory_sized :: "'a elem_type \<Rightarrow> nat \<Rightarrow> world \<Rightarrow> ('a RawMemory, world) outcome" where
  "RawMemory_sized T n w =
     (case Allocate T n w of
        Returned b w' \<Rightarrow> Returned \<lparr>buffer = b, capacity = n\<rparr> w'
      | Threw e w' \<Rightarrow> Threw e w'
      | Undefined \<Rightarrow> Undefined)"

text \<open>\<^verbatim>\<open>~RawMemory\<close> deallocates and runs no destructor.\<close>

definition RawMemory_release :: "'a RawMemory \<Rightarrow> world \<Rightarrow> world" where
  "RawMemory_release m w =
     count ReleasedLive (length (filter (\<lambda>s. s \<noteq> None) (buffer m))) w"

definition slot_at :: "'a option list \<Rightarrow> nat \<Rightarrow> 'a option" where
  "slot_at buf i = (if i < length buf then buf ! i else None)"

fun deref :: "'a option list \<Rightarrow> 'a ref \<Rightarrow> 'a option" where
  "deref own (Outside x) = Some x"
| "deref own (Element i) = slot_at own i"

fun read_args :: "'a option list \<Rightarrow> 'a call_args \<Rightarrow> 'a ctor_args option" where
  "read_args own (Lvalue r) = map_option CopyOf (deref own r)"
| "read_args own (Rvalue r) = map_option MoveOf (deref own r)"
| "read_args own (Other x) = Some (Args x)"

fun moved_out :: "'a elem_type \<Rightarrow> 'a option list \<Rightarrow> 'a call_args \<Rightarrow> 'a option list" where
  "moved_out T own (Rvalue (Element i)) =
     (case slot_at own i of
        None \<Rightarrow> own
      | Some x \<Rightarrow> own[i := Some (moved_from T x)])"
| "moved_out T own (Rvalue (Outside x)) = own"
| "moved_out T own (Lvalue r) = own"
| "moved_out T own (Other x) = own"

section \<open>The algorithms of the standard library the vector calls\<close>

text \<open>
  \<^verbatim>\<open>std::destroy_n(p + j, n)\<close>: the destructors do not throw.
\<close>

fun destroy_n :: "'a option list \<Rightarrow> nat \<Rightarrow> nat \<Rightarrow> world \<Rightarrow> 'a option list \<times> world" where
  "destroy_n buf j 0 w = (buf, w)"
| "destroy_n buf j (Suc n) w =
     destroy_n (buf[j := None]) (Suc j) n (count Destroyed 1 w)"

definition destroy_at :: "'a option list \<Rightarrow> nat \<Rightarrow> world \<Rightarrow> 'a option list \<times> world" where
  "destroy_at buf j w = (buf[j := None], count Destroyed 1 w)"

text \<open>
  \<^verbatim>\<open>std::uninitialized_copy_n(src + i, n, dst + j)\<close>: copy-constructs one element after
  the other; when a construction throws, the elements it has constructed are destroyed
  and the exception is rethrown. The result is the source block, the destination block
  and the world.
\<close>

fun uninitialized_copy_n ::
  "'a option list \<Rightarrow> nat \<Rightarrow> nat \<Rightarrow> 'a option list \<Rightarrow> nat \<Rightarrow> world
     \<Rightarrow> (unit, 'a option list \<times> 'a option list \<times> world) outcome" where
  "uninitialized_copy_n src i 0 dst j w = Returned () (src, dst, w)"
| "uninitialized_copy_n src i (Suc n) dst j w =
     (case slot_at src i of
        None \<Rightarrow> Undefined
      | Some x \<Rightarrow>
          if length dst \<le> j then Undefined
          else (case copy_construct x w of
                  Returned y w1 \<Rightarrow>
                    (case uninitialized_copy_n src (Suc i) n (dst[j := Some y]) (Suc j) w1 of
                       Returned u s \<Rightarrow> Returned u s
                     | Threw e (src', dst', w2) \<Rightarrow>
                         Threw e (src', dst'[j := None], count Destroyed 1 w2)
                     | Undefined \<Rightarrow> Undefined)
                | Threw e w1 \<Rightarrow> Threw e (src, dst, w1)
                | Undefined \<Rightarrow> Undefined))"

text \<open>
  \<^verbatim>\<open>std::uninitialized_move_n(src + i, n, dst + j)\<close>: the same with move construction;
  the sources already moved from stay moved from when a later construction throws.
\<close>

fun uninitialized_move_n ::
  "'a elem_type \<Rightarrow> 'a option list \<Rightarrow> nat \<Rightarrow> nat \<Rightarrow> 'a option list \<Rightarrow> nat \<Rightarrow> world
     \<Rightarrow> (unit, 'a option list \<times> 'a option list \<times> world) outcome" where
  "uninitialized_move_n T src i 0 dst j w = Returned () (src, dst, w)"
| "uninitialized_move_n T src i (Suc n) dst j w =
     (case slot_at src i of
        None \<Rightarrow> Undefined
      | Some x \<Rightarrow>
          if length dst \<le> j then Undefined
          else (case move_construct T x w of
                  Returned (y, x') w1 \<Rightarrow>
                    (case uninitialized_move_n T (src[i := Some x']) (Suc i) n
                            (dst[j := Some y]) (Suc j) w1 of
                       Returned u s \<Rightarrow> Returned u s
                     | Threw e (src', dst', w2) \<Rightarrow>
                         Threw e (src', dst'[j := None], count Destroyed 1 w2)
                     | Undefined \<Rightarrow> Undefined)
                | Threw e w1 \<Rightarrow> Threw e (src, dst, w1)
                | Undefined \<Rightarrow> Undefined))"

text \<open>\<^verbatim>\<open>std::uninitialized_value_construct_n(dst + j, n)\<close>.\<close>

fun uninitialized_value_construct_n ::
  "'a elem_type \<Rightarrow> 'a option list \<Rightarrow> nat \<Rightarrow> nat \<Rightarrow> world
     \<Rightarrow> (unit, 'a option list \<times> world) outcome" where
  "uninitialized_value_construct_n T dst j 0 w = Returned () (dst, w)"
| "uninitialized_value_construct_n T dst j (Suc n) w =
     (if length dst \<le> j then Undefined
      else (case value_construct T w of
              Returned y w1 \<Rightarrow>
                (case uninitialized_value_construct_n T (dst[j := Some y]) (Suc j) n w1 of
                   Returned u s \<Rightarrow> Returned u s
                 | Threw e (dst', w2) \<Rightarrow>
                     Threw e (dst'[j := None], count Destroyed 1 w2)
                 | Undefined \<Rightarrow> Undefined)
            | Threw e w1 \<Rightarrow> Threw e (dst, w1)
            | Undefined \<Rightarrow> Undefined))"

text \<open>\<^verbatim>\<open>std::construct_at(dst + j, args...)\<close>.\<close>

definition construct_at ::
  "'a elem_type \<Rightarrow> 'a option list \<Rightarrow> nat \<Rightarrow> 'a ctor_args \<Rightarrow> world
     \<Rightarrow> (unit, 'a option list \<times> world) outcome" where
  "construct_at T dst j args w =
     (if length dst \<le> j then Undefined
      else (case construct_from T args w of
              Returned y w1 \<Rightarrow> Returned () (dst[j := Some y], w1)
            | Threw e w1 \<Rightarrow> Threw e (dst, w1)
            | Undefined \<Rightarrow> Undefined))"

text \<open>
  \<^verbatim>\<open>std::copy_n(src + i, n, dst + j)\<close>: copy-assigns to existing objects; an assignment
  that throws leaves the elements assigned so far assigned.
\<close>

fun copy_n ::
  "'a option list \<Rightarrow> nat \<Rightarrow> nat \<Rightarrow> 'a option list \<Rightarrow> nat \<Rightarrow> world
     \<Rightarrow> (unit, 'a option list \<times> world) outcome" where
  "copy_n src i 0 dst j w = Returned () (dst, w)"
| "copy_n src i (Suc n) dst j w =
     (case slot_at src i of
        None \<Rightarrow> Undefined
      | Some x \<Rightarrow>
          (case slot_at dst j of
             None \<Rightarrow> Undefined
           | Some _ \<Rightarrow>
               (case copy_assign x w of
                  Returned y w1 \<Rightarrow> copy_n src (Suc i) n (dst[j := Some y]) (Suc j) w1
                | Threw e w1 \<Rightarrow> Threw e (dst, w1)
                | Undefined \<Rightarrow> Undefined)))"

text \<open>
  \<^verbatim>\<open>std::move(buf + first, buf + lst, buf + d)\<close> inside one block: move-assigns the
  elements front to back. \<open>move_n\<close> is its loop over the \<open>lst - first\<close> elements.
\<close>

fun move_n ::
  "'a elem_type \<Rightarrow> 'a option list \<Rightarrow> nat \<Rightarrow> nat \<Rightarrow> nat \<Rightarrow> world
     \<Rightarrow> (unit, 'a option list \<times> world) outcome" where
  "move_n T buf first 0 d w = Returned () (buf, w)"
| "move_n T buf first (Suc n) d w =
     (case slot_at buf first of
        None \<Rightarrow> Undefined
      | Some x \<Rightarrow>
          (case slot_at buf d of
             None \<Rightarrow> Undefined
           | Some _ \<Rightarrow>
               (case move_assign T x w of
                  Returned (y, x') w1 \<Rightarrow>
                    move_n T (buf[first := Some x', d := Some y]) (Suc first) n (Suc d) w1
                | Threw e w1 \<Rightarrow> Threw e (buf, w1)
                | Undefined \<Rightarrow> Undefined)))"

definition std_move ::
  "'a elem_type \<Rightarrow> 'a option list \<Rightarrow> nat \<Rightarrow> nat \<Rightarrow> nat \<Rightarrow> world
     \<Rightarrow> (unit, 'a option list \<times> world) outcome" where
  "std_move T buf first lst d w = move_n T buf first (lst - first) d w"

text \<open>
  The loop of \<^verbatim>\<open>EmplaceWithoutRealloc\<close>:
  \<^verbatim>\<open>for (size_t i = size_ - 1; i > index; --i) data_[i] = std::move(data_[i - 1]);\<close>
\<close>

fun shift_right ::
  "'a elem_type \<Rightarrow> 'a option list \<Rightarrow> nat \<Rightarrow> nat \<Rightarrow> world
     \<Rightarrow> (unit, 'a option list \<times> world) outcome" where
  "shift_right T buf 0 index w = Returned () (buf, w)"
| "shift_right T buf (Suc i) index w =
     (if Suc i > index then
        (case slot_at buf i of
           None \<Rightarrow> Undefined
         | Some x \<Rightarrow>
             (case slot_at buf (Suc i) of
                None \<Rightarrow> Undefined
              | Some _ \<Rightarrow>
                  (case move_assign T x w of
                     Returned (y, x') w1 \<Rightarrow>
                       shift_right T (buf[i := Some x', Suc i := Some y]) i index w1
                   | Threw e w1 \<Rightarrow> Threw e (buf, w1)
                   | Undefined \<Rightarrow> Undefined)))
      else Returned () (buf, w))"

section \<open>The vector\<close>

record 'a Vector =
  data :: "'a RawMemory"
  vsize :: nat

definition Capacity :: "'a Vector \<Rightarrow> nat" where
  "Capacity v = capacity (data v)"

definition Size :: "'a Vector \<Rightarrow> nat" where
  "Size v = vsize v"

definition with_buffer :: "'a Vector \<Rightarrow> 'a option list \<Rightarrow> 'a Vector" where
  "with_buffer v b = v\<lparr>data := (data v)\<lparr>buffer := b\<rparr>\<rparr>"

definition Vector_default :: "'a Vector" where
  "Vector_default = \<lparr>data = RawMemory_default, vsize = 0\<rparr>"

subsection \<open>Construction, destruction, swap\<close>

definition Vector_sized :: "'a elem_type \<Rightarrow> nat \<Rightarrow> world \<Rightarrow> ('a Vector, world) outcome" where
  "Vector_sized T n w =
     (case RawMemory_sized T n w of
        Threw e w1 \<Rightarrow> Threw e w1
      | Undefined \<Rightarrow> Undefined
      | Returned m w1 \<Rightarrow>
          (case uninitialized_value_construct_n T (buffer m) 0 n w1 of
             Threw e (b, w2) \<Rightarrow> Threw e (RawMemory_release (m\<lparr>buffer := b\<rparr>) w2)
           | Undefined \<Rightarrow> Undefined
           | Returned _ (b, w2) \<Rightarrow> Returned \<lparr>data = m\<lparr>buffer := b\<rparr>, vsize = n\<rparr> w2))"

definition Vector_copy :: "'a elem_type \<Rightarrow> 'a Vector \<Rightarrow> world \<Rightarrow> ('a Vector, world) outcome" where
  "Vector_copy T other w =
     (case RawMemory_sized T (vsize other) w of
        Threw e w1 \<Rightarrow> Threw e w1
      | Undefined \<Rightarrow> Undefined
      | Returned m w1 \<Rightarrow>
          (case uninitialized_copy_n (buffer (data other)) 0 (vsize other) (buffer m) 0 w1 of
             Threw e (_, b, w2) \<Rightarrow> Threw e (RawMemory_release (m\<lparr>buffer := b\<rparr>) w2)
           | Undefined \<Rightarrow> Undefined
           | Returned _ (_, b, w2) \<Rightarrow>
               Returned \<lparr>data = m\<lparr>buffer := b\<rparr>, vsize = vsize other\<rparr> w2))"

text \<open>The move constructor returns the new vector and the state left in \<open>other\<close>.\<close>

definition Vector_move :: "'a Vector \<Rightarrow> 'a Vector \<times> 'a Vector" where
  "Vector_move other =
     (\<lparr>data = data other, vsize = vsize other\<rparr>, \<lparr>data = RawMemory_default, vsize = 0\<rparr>)"

definition Vector_destroy :: "'a Vector \<Rightarrow> world \<Rightarrow> world" where
  "Vector_destroy v w =
     (case destroy_n (buffer (data v)) 0 (vsize v) w of
        (b, w1) \<Rightarrow> RawMemory_release ((data v)\<lparr>buffer := b\<rparr>) w1)"

definition Swap :: "'a Vector \<Rightarrow> 'a Vector \<Rightarrow> 'a Vector \<times> 'a Vector" where
  "Swap v other =
     (v\<lparr>data := data other, vsize := vsize other\<rparr>, other\<lparr>data := data v, vsize := vsize v\<rparr>)"

text \<open>\<^verbatim>\<open>operator[]\<close>: \<open>None\<close> when the access is undefined.\<close>

definition at :: "'a Vector \<Rightarrow> nat \<Rightarrow> 'a option" where
  "at v index = (if index < vsize v then slot_at (buffer (data v)) index else None)"

subsection \<open>Reserve, Resize, PopBack\<close>

definition Reserve ::
  "'a elem_type \<Rightarrow> nat \<Rightarrow> 'a Vector \<Rightarrow> world \<Rightarrow> (unit, 'a Vector \<times> world) outcome" where
  "Reserve T new_capacity v w =
     (if new_capacity \<le> Capacity v then Returned () (v, w)
      else
        (case RawMemory_sized T new_capacity w of
           Threw e w1 \<Rightarrow> Threw e (v, w1)
         | Undefined \<Rightarrow> Undefined
         | Returned new_data w1 \<Rightarrow>
            (case (if nothrow_move_constructible T \<or> \<not> copy_constructible T
                   then uninitialized_move_n T (buffer (data v)) 0 (vsize v) (buffer new_data) 0 w1
                   else uninitialized_copy_n (buffer (data v)) 0 (vsize v) (buffer new_data) 0 w1) of
               Threw e (old, new, w2) \<Rightarrow>
                 Threw e (with_buffer v old, RawMemory_release (new_data\<lparr>buffer := new\<rparr>) w2)
             | Undefined \<Rightarrow> Undefined
             | Returned _ (old, new, w2) \<Rightarrow>
                (case destroy_n old 0 (vsize v) w2 of
                   (old', w3) \<Rightarrow>
                     Returned ()
                       (\<lparr>data = new_data\<lparr>buffer := new\<rparr>, vsize = vsize v\<rparr>,
                        RawMemory_release ((data v)\<lparr>buffer := old'\<rparr>) w3)))))"

definition Resize ::
  "'a elem_type \<Rightarrow> nat \<Rightarrow> 'a Vector \<Rightarrow> world \<Rightarrow> (unit, 'a Vector \<times> world) outcome" where
  "Resize T new_size v w =
     (if new_size < vsize v then
        (case destroy_n (buffer (data v)) new_size (vsize v - new_size) w of
           (b, w1) \<Rightarrow> Returned () ((with_buffer v b)\<lparr>vsize := new_size\<rparr>, w1))
      else
        (case (if new_size > Capacity v then Reserve T new_size v w else Returned () (v, w)) of
           Threw e s \<Rightarrow> Threw e s
         | Undefined \<Rightarrow> Undefined
         | Returned _ (v1, w1) \<Rightarrow>
            (case uninitialized_value_construct_n T (buffer (data v1)) (vsize v1)
                    (new_size - vsize v1) w1 of
               Threw e (b, w2) \<Rightarrow> Threw e (with_buffer v1 b, w2)
             | Undefined \<Rightarrow> Undefined
             | Returned _ (b, w2) \<Rightarrow>
                 Returned () ((with_buffer v1 b)\<lparr>vsize := new_size\<rparr>, w2))))"

text \<open>\<^verbatim>\<open>PopBack\<close> is \<^verbatim>\<open>noexcept\<close>; \<^verbatim>\<open>assert(size_ > 0)\<close>.\<close>

definition PopBack :: "'a Vector \<Rightarrow> world \<Rightarrow> (unit, 'a Vector \<times> world) outcome" where
  "PopBack v w =
     (if vsize v > 0 then
        (case destroy_at (buffer (data v)) (vsize v - 1) w of
           (b, w1) \<Rightarrow> Returned () ((with_buffer v b)\<lparr>vsize := vsize v - 1\<rparr>, w1))
      else Undefined)"

subsection \<open>EmplaceBack, PushBack\<close>

text \<open>
  \<^verbatim>\<open>EmplaceBack(args...)\<close>, which \<^verbatim>\<open>PushBack\<close> forwards to. It returns the index of
  the new element. \<open>new_data\<close> is a local: it is released when the function is left,
  by a return or by an exception. On the growth path \<^verbatim>\<open>std::construct_at\<close> runs after
  the relocation: a reference to an element of the vector then names an object of the
  old block as the relocation has left it.
\<close>

definition EmplaceBack ::
  "'a elem_type \<Rightarrow> 'a call_args \<Rightarrow> 'a Vector \<Rightarrow> world \<Rightarrow> (nat, 'a Vector \<times> world) outcome" where
  "EmplaceBack T args v w =
     (if vsize v = Capacity v then
        (let new_capacity = (if vsize v = 0 then 1 else (vsize v * 2) mod size_t_range) in
         case RawMemory_sized T new_capacity w of
           Threw e w1 \<Rightarrow> Threw e (v, w1)
         | Undefined \<Rightarrow> Undefined
         | Returned new_data w1 \<Rightarrow>
            (case (if nothrow_move_constructible T \<or> \<not> copy_constructible T
                   then uninitialized_move_n T (buffer (data v)) 0 (vsize v) (buffer new_data) 0 w1
                   else uninitialized_copy_n (buffer (data v)) 0 (vsize v) (buffer new_data) 0 w1) of
               Threw e (old, new, w2) \<Rightarrow>
                 Threw e (with_buffer v old, RawMemory_release (new_data\<lparr>buffer := new\<rparr>) w2)
             | Undefined \<Rightarrow> Undefined
             | Returned _ (old, new, w2) \<Rightarrow>
                (case read_args old args of
                   None \<Rightarrow> Undefined
                 | Some a \<Rightarrow>
                    (case construct_at T new (vsize v) a w2 of
                       Threw e (new', w3) \<Rightarrow>
                         (case destroy_n new' 0 (vsize v) w3 of
                            (new'', w4) \<Rightarrow>
                              Threw e (with_buffer v old,
                                       RawMemory_release (new_data\<lparr>buffer := new''\<rparr>) w4))
                     | Undefined \<Rightarrow> Undefined
                     | Returned _ (new', w3) \<Rightarrow>
                        (case destroy_n (moved_out T old args) 0 (vsize v) w3 of
                           (old', w4) \<Rightarrow>
                             Returned (vsize v)
                               (\<lparr>data = new_data\<lparr>buffer := new'\<rparr>, vsize = vsize v + 1\<rparr>,
                                RawMemory_release ((data v)\<lparr>buffer := old'\<rparr>) w4))))))
      else
        (case read_args (buffer (data v)) args of
           None \<Rightarrow> Undefined
         | Some a \<Rightarrow>
            (case construct_at T (buffer (data v)) (vsize v) a w of
               Threw e (b, w1) \<Rightarrow> Threw e (with_buffer v b, w1)
             | Undefined \<Rightarrow> Undefined
             | Returned _ (b, w1) \<Rightarrow>
                 Returned (vsize v)
                   ((with_buffer v (moved_out T b args))\<lparr>vsize := vsize v + 1\<rparr>, w1))))"

definition PushBack_copy ::
  "'a elem_type \<Rightarrow> 'a ref \<Rightarrow> 'a Vector \<Rightarrow> world \<Rightarrow> (unit, 'a Vector \<times> world) outcome" where
  "PushBack_copy T x v w =
     (case EmplaceBack T (Lvalue x) v w of
        Returned _ s \<Rightarrow> Returned () s
      | Threw e s \<Rightarrow> Threw e s
      | Undefined \<Rightarrow> Undefined)"

definition PushBack_move ::
  "'a elem_type \<Rightarrow> 'a ref \<Rightarrow> 'a Vector \<Rightarrow> world \<Rightarrow> (unit, 'a Vector \<times> world) outcome" where
  "PushBack_move T x v w =
     (case EmplaceBack T (Rvalue x) v w of
        Returned _ s \<Rightarrow> Returned () s
      | Threw e s \<Rightarrow> Threw e s
      | Undefined \<Rightarrow> Undefined)"


subsection \<open>Emplace, Insert, Erase\<close>

text \<open>
  A position \<^verbatim>\<open>pos\<close> is given by its index \<^verbatim>\<open>pos - begin()\<close>; the iterator returned is
  given by its index too. In \<^verbatim>\<open>EmplaceWithRealloc\<close> the count \<^verbatim>\<open>size_ - index\<close> is a
  \<^verbatim>\<open>size_t\<close>: with \<open>index > size_\<close> it wraps around to a count that runs over the end of
  both blocks. The new element is constructed between the two relocations: a reference
  to an element of the vector is read in the old block as the first relocation has left
  it.
\<close>

definition EmplaceWithRealloc ::
  "'a elem_type \<Rightarrow> nat \<Rightarrow> 'a call_args \<Rightarrow> 'a Vector \<Rightarrow> world
     \<Rightarrow> (nat, 'a Vector \<times> world) outcome" where
  "EmplaceWithRealloc T index args v w =
     (let new_capacity = (if vsize v = 0 then 1 else (vsize v * 2) mod size_t_range) in
      case RawMemory_sized T new_capacity w of
        Threw e w1 \<Rightarrow> Threw e (v, w1)
      | Undefined \<Rightarrow> Undefined
      | Returned new_data w1 \<Rightarrow>
         if vsize v < index then Undefined
         else
         (case (if nothrow_move_constructible T \<or> \<not> copy_constructible T then
                  (case uninitialized_move_n T (buffer (data v)) 0 index (buffer new_data) 0 w1 of
                     Threw e s \<Rightarrow> Threw e s
                   | Undefined \<Rightarrow> Undefined
                   | Returned _ (old1, new1, w2) \<Rightarrow>
                      (case read_args old1 args of
                         None \<Rightarrow> Undefined
                       | Some a \<Rightarrow>
                          (case construct_at T new1 index a w2 of
                             Threw e (new2, w3) \<Rightarrow> Threw e (old1, new2, w3)
                           | Undefined \<Rightarrow> Undefined
                           | Returned _ (new2, w3) \<Rightarrow>
                               uninitialized_move_n T (moved_out T old1 args) index (vsize v - index)
                                 new2 (index + 1) w3)))
                else
                  (case uninitialized_copy_n (buffer (data v)) 0 index (buffer new_data) 0 w1 of
                     Threw e s \<Rightarrow> Threw e s
                   | Undefined \<Rightarrow> Undefined
                   | Returned _ (old1, new1, w2) \<Rightarrow>
                      (case read_args old1 args of
                         None \<Rightarrow> Undefined
                       | Some a \<Rightarrow>
                          (case construct_at T new1 index a w2 of
                             Threw e (new2, w3) \<Rightarrow> Threw e (old1, new2, w3)
                           | Undefined \<Rightarrow> Undefined
                           | Returned _ (new2, w3) \<Rightarrow>
                               uninitialized_copy_n (moved_out T old1 args) index (vsize v - index)
                                 new2 (index + 1) w3)))) of
            Threw e (old, new, w4) \<Rightarrow>
              Threw e (with_buffer v old, RawMemory_release (new_data\<lparr>buffer := new\<rparr>) w4)
          | Undefined \<Rightarrow> Undefined
          | Returned _ (old, new, w4) \<Rightarrow>
             (case destroy_n old 0 (vsize v) w4 of
                (old', w5) \<Rightarrow>
                  Returned index
                    (\<lparr>data = new_data\<lparr>buffer := new\<rparr>, vsize = vsize v + 1\<rparr>,
                     RawMemory_release ((data v)\<lparr>buffer := old'\<rparr>) w5))))"

text \<open>
  \<open>temp\<close> is a local of \<^verbatim>\<open>EmplaceWithoutRealloc\<close>: once constructed, it is destroyed
  when the function is left, by a return or by an exception. It is constructed first,
  from the arguments as they are before any element is shifted.
\<close>

definition destroy_temp :: "world \<Rightarrow> world" where
  "destroy_temp w = count Destroyed 1 w"

definition EmplaceWithoutRealloc ::
  "'a elem_type \<Rightarrow> nat \<Rightarrow> 'a call_args \<Rightarrow> 'a Vector \<Rightarrow> world
     \<Rightarrow> (nat, 'a Vector \<times> world) outcome" where
  "EmplaceWithoutRealloc T index args v w =
     (case read_args (buffer (data v)) args of
        None \<Rightarrow> Undefined
      | Some a \<Rightarrow>
     (case construct_from T a w of
        Threw e w1 \<Rightarrow> Threw e (v, w1)
      | Undefined \<Rightarrow> Undefined
      | Returned temp w1 \<Rightarrow>
         let buf = moved_out T (buffer (data v)) args in
         if index < vsize v then
           (case slot_at buf (vsize v - 1) of
              None \<Rightarrow> Undefined
            | Some x \<Rightarrow>
               if length buf \<le> vsize v then Undefined
               else
               (case move_construct T x w1 of
                  Threw e w2 \<Rightarrow> Threw e (with_buffer v buf, destroy_temp w2)
                | Undefined \<Rightarrow> Undefined
                | Returned (y, x') w2 \<Rightarrow>
                   (case shift_right T (buf[vsize v - 1 := Some x', vsize v := Some y])
                           (vsize v - 1) index w2 of
                      Threw e (b, w3) \<Rightarrow> Threw e (with_buffer v b, destroy_temp w3)
                    | Undefined \<Rightarrow> Undefined
                    | Returned _ (b, w3) \<Rightarrow>
                       (case slot_at b index of
                          None \<Rightarrow> Undefined
                        | Some _ \<Rightarrow>
                           (case move_assign T temp w3 of
                              Threw e w4 \<Rightarrow> Threw e (with_buffer v b, destroy_temp w4)
                            | Undefined \<Rightarrow> Undefined
                            | Returned (y', _) w4 \<Rightarrow>
                                Returned index
                                  ((with_buffer v (b[index := Some y']))\<lparr>vsize := vsize v + 1\<rparr>,
                                   destroy_temp w4))))))
         else
           (case construct_at T buf index (MoveOf temp) w1 of
              Threw e (b, w2) \<Rightarrow> Threw e (with_buffer v b, destroy_temp w2)
            | Undefined \<Rightarrow> Undefined
            | Returned _ (b, w2) \<Rightarrow>
                Returned index ((with_buffer v b)\<lparr>vsize := vsize v + 1\<rparr>, destroy_temp w2))))"

definition Emplace ::
  "'a elem_type \<Rightarrow> nat \<Rightarrow> 'a call_args \<Rightarrow> 'a Vector \<Rightarrow> world
     \<Rightarrow> (nat, 'a Vector \<times> world) outcome" where
  "Emplace T index args v w =
     (if vsize v = Capacity v then EmplaceWithRealloc T index args v w
      else EmplaceWithoutRealloc T index args v w)"

definition Insert_copy ::
  "'a elem_type \<Rightarrow> nat \<Rightarrow> 'a ref \<Rightarrow> 'a Vector \<Rightarrow> world \<Rightarrow> (nat, 'a Vector \<times> world) outcome" where
  "Insert_copy T index x v w = Emplace T index (Lvalue x) v w"

definition Insert_move ::
  "'a elem_type \<Rightarrow> nat \<Rightarrow> 'a ref \<Rightarrow> 'a Vector \<Rightarrow> world \<Rightarrow> (nat, 'a Vector \<times> world) outcome" where
  "Insert_move T index x v w = Emplace T index (Rvalue x) v w"

text \<open>\<^verbatim>\<open>Erase\<close>: \<^verbatim>\<open>assert(pos >= begin() && pos < end())\<close>.\<close>

definition Erase ::
  "'a elem_type \<Rightarrow> nat \<Rightarrow> 'a Vector \<Rightarrow> world \<Rightarrow> (nat, 'a Vector \<times> world) outcome" where
  "Erase T index v w =
     (if index < vsize v then
        (case std_move T (buffer (data v)) (index + 1) (vsize v) index w of
           Threw e (b, w1) \<Rightarrow> Threw e (with_buffer v b, w1)
         | Undefined \<Rightarrow> Undefined
         | Returned _ (b, w1) \<Rightarrow>
            (case destroy_at b (vsize v - 1) w1 of
               (b', w2) \<Rightarrow> Returned index ((with_buffer v b')\<lparr>vsize := vsize v - 1\<rparr>, w2)))
      else Undefined)"

subsection \<open>Assignment\<close>

text \<open>
  Copy assignment compares the addresses of its two operands, so it is modelled on a
  store of vector objects: \<open>this\<close> and \<open>rhs\<close> are addresses, and \<open>st\<close> gives the object
  at each address. \<^verbatim>\<open>rhs.data_ + size_\<close>, \<^verbatim>\<open>data_ + size_\<close> and \<^verbatim>\<open>data_ + rhs.size_\<close> go
  through \<^verbatim>\<open>RawMemory::operator+\<close>, which asserts \<^verbatim>\<open>offset <= capacity_\<close>. \<open>tmp\<close> is a
  local: after the swap it holds the former contents of \<open>this\<close> and is destroyed.
\<close>

definition operator_assign_copy ::
  "'a elem_type \<Rightarrow> nat \<Rightarrow> nat \<Rightarrow> (nat \<Rightarrow> 'a Vector) \<Rightarrow> world
     \<Rightarrow> (unit, (nat \<Rightarrow> 'a Vector) \<times> world) outcome" where
  "operator_assign_copy T this rhs st w =
     (if this \<noteq> rhs then
        (if vsize (st rhs) > Capacity (st this) then
           (case Vector_copy T (st rhs) w of
              Threw e w1 \<Rightarrow> Threw e (st, w1)
            | Undefined \<Rightarrow> Undefined
            | Returned tmp w1 \<Rightarrow>
               (case Swap (st this) tmp of
                  (v', tmp') \<Rightarrow> Returned () (st(this := v'), Vector_destroy tmp' w1)))
         else
           (case copy_n (buffer (data (st rhs))) 0 (min (vsize (st this)) (vsize (st rhs)))
                   (buffer (data (st this))) 0 w of
              Threw e (b, w1) \<Rightarrow> Threw e (st(this := with_buffer (st this) b), w1)
            | Undefined \<Rightarrow> Undefined
            | Returned _ (b, w1) \<Rightarrow>
               if vsize (st this) < vsize (st rhs) then
                 (if vsize (st this) \<le> capacity (data (st rhs))
                     \<and> vsize (st this) \<le> capacity (data (st this)) then
                    (case uninitialized_copy_n (buffer (data (st rhs))) (vsize (st this))
                            (vsize (st rhs) - vsize (st this)) b (vsize (st this)) w1 of
                       Threw e (_, b', w2) \<Rightarrow> Threw e (st(this := with_buffer (st this) b'), w2)
                     | Undefined \<Rightarrow> Undefined
                     | Returned _ (_, b', w2) \<Rightarrow>
                         Returned ()
                           (st(this := (with_buffer (st this) b')\<lparr>vsize := vsize (st rhs)\<rparr>), w2))
                  else Undefined)
               else if vsize (st this) > vsize (st rhs) then
                 (if vsize (st rhs) \<le> capacity (data (st this)) then
                    (case destroy_n b (vsize (st rhs)) (vsize (st this) - vsize (st rhs)) w1 of
                       (b', w2) \<Rightarrow>
                         Returned ()
                           (st(this := (with_buffer (st this) b')\<lparr>vsize := vsize (st rhs)\<rparr>), w2))
                  else Undefined)
               else
                 Returned () (st(this := (with_buffer (st this) b)\<lparr>vsize := vsize (st rhs)\<rparr>), w1)))
      else Returned () (st, w))"

text \<open>Move assignment is \<^verbatim>\<open>Swap(rhs)\<close>.\<close>

definition operator_assign_move ::
  "nat \<Rightarrow> nat \<Rightarrow> (nat \<Rightarrow> 'a Vector) \<Rightarrow> (nat \<Rightarrow> 'a Vector)" where
  "operator_assign_move this rhs st =
     (case Swap (st this) (st rhs) of
        (v', other') \<Rightarrow> (st(rhs := other'))(this := v'))"

section \<open>Observations, the invariant and the reachable states\<close>

fun state_of :: "('r, 's) outcome \<Rightarrow> 's option" where
  "state_of (Returned _ s) = Some s"
| "state_of (Threw _ s) = Some s"
| "state_of Undefined = None"

fun returned :: "('r, 's) outcome \<Rightarrow> bool" where
  "returned (Returned _ _) = True"
| "returned (Threw _ _) = False"
| "returned Undefined = False"

fun threw :: "('r, 's) outcome \<Rightarrow> bool" where
  "threw (Returned _ _) = False"
| "threw (Threw _ _) = True"
| "threw Undefined = False"

text \<open>The slots \<open>[0, size)\<close> of a vector.\<close>

definition elements :: "'a Vector \<Rightarrow> 'a option list" where
  "elements v = take (vsize v) (buffer (data v))"

definition occupied :: "'a option list \<Rightarrow> bool list" where
  "occupied buf = map (\<lambda>s. s \<noteq> None) buf"

text \<open>
  The invariant of the data model: the block has at most \<^verbatim>\<open>capacity_\<close> slots (fewer
  only when the size of the allocation wrapped around), the elements are inside the
  block, the first \<^verbatim>\<open>size_\<close> slots hold objects and the others hold none.
  \<open>prefix_constructed\<close> is the part of it that says nothing about the slots from
  \<^verbatim>\<open>size_\<close> on. A \<open>whole_block\<close> has all its \<^verbatim>\<open>capacity_\<close> slots.
\<close>

definition invariant :: "'a Vector \<Rightarrow> bool" where
  "invariant v \<longleftrightarrow>
     length (buffer (data v)) \<le> capacity (data v) \<and> vsize v \<le> length (buffer (data v)) \<and>
     occupied (buffer (data v)) =
       replicate (vsize v) True @ replicate (length (buffer (data v)) - vsize v) False"

definition prefix_constructed :: "'a Vector \<Rightarrow> bool" where
  "prefix_constructed v \<longleftrightarrow>
     length (buffer (data v)) \<le> capacity (data v) \<and> vsize v \<le> length (buffer (data v)) \<and>
     take (vsize v) (occupied (buffer (data v))) = replicate (vsize v) True"

definition whole_block :: "'a Vector \<Rightarrow> bool" where
  "whole_block v \<longleftrightarrow> length (buffer (data v)) = capacity (data v)"

text \<open>The size in bytes of \<open>n\<close> objects of type \<open>T\<close> is computed without wrap-around.\<close>

definition fits_size_t :: "'a elem_type \<Rightarrow> nat \<Rightarrow> bool" where
  "fits_size_t T n \<longleftrightarrow> 0 < sizeof T \<and> n * sizeof T < size_t_range"

text \<open>
  An insertion before the end of a vector that has spare capacity shifts elements in
  place, by move assignment. \<open>in_place_insert_threw\<close>: such an insertion threw, for an
  element type whose move assignment may throw.
\<close>

definition in_place_insert_threw ::
  "'a elem_type \<Rightarrow> nat \<Rightarrow> 'a call_args \<Rightarrow> 'a Vector \<Rightarrow> world \<Rightarrow> bool" where
  "in_place_insert_threw T index args v w \<longleftrightarrow>
     \<not> nothrow_move_assignable T \<and> vsize v \<noteq> Capacity v \<and> index < vsize v \<and>
     threw (Emplace T index args v w)"

text \<open>
  The states a vector of element type \<open>T\<close> can be in: it is constructed by one of the
  constructors, and every public operation called within its precondition takes it to a
  new state, whether the operation returns or throws. An element may also be assigned to
  through the reference \<^verbatim>\<open>operator[]\<close> returns. \<open>reachable_by every\<close> follows every
  outcome when \<open>every\<close> holds, which gives the \<open>reachable\<close> states, and leaves the
  insertions that \<open>in_place_insert_threw\<close> describes out otherwise.
\<close>

inductive reachable_by :: "bool \<Rightarrow> 'a elem_type \<Rightarrow> 'a Vector \<Rightarrow> bool"
  for every :: bool and T :: "'a elem_type" where
  r_default: "reachable_by every T Vector_default"
| r_sized: "Vector_sized T n w = Returned v w' \<Longrightarrow> reachable_by every T v"
| r_copy:
    "reachable_by every T other \<Longrightarrow> Vector_copy T other w = Returned v w' \<Longrightarrow>
     reachable_by every T v"
| r_move:
    "reachable_by every T other \<Longrightarrow> Vector_move other = (v, other') \<Longrightarrow> reachable_by every T v"
| r_moved_from:
    "reachable_by every T other \<Longrightarrow> Vector_move other = (v, other') \<Longrightarrow>
     reachable_by every T other'"
| r_assign_copy:
    "reachable_by every T (st this) \<Longrightarrow> reachable_by every T (st rhs) \<Longrightarrow>
     state_of (operator_assign_copy T this rhs st w) = Some (st', w') \<Longrightarrow>
     reachable_by every T (st' this)"
| r_assign_move:
    "reachable_by every T (st this) \<Longrightarrow> reachable_by every T (st rhs) \<Longrightarrow>
     p = this \<or> p = rhs \<Longrightarrow> reachable_by every T (operator_assign_move this rhs st p)"
| r_swap:
    "reachable_by every T v \<Longrightarrow> reachable_by every T other \<Longrightarrow> Swap v other = (v', other') \<Longrightarrow>
     reachable_by every T v'"
| r_swapped:
    "reachable_by every T v \<Longrightarrow> reachable_by every T other \<Longrightarrow> Swap v other = (v', other') \<Longrightarrow>
     reachable_by every T other'"
| r_reserve:
    "reachable_by every T v \<Longrightarrow> state_of (Reserve T n v w) = Some (v', w') \<Longrightarrow>
     reachable_by every T v'"
| r_resize:
    "reachable_by every T v \<Longrightarrow> state_of (Resize T n v w) = Some (v', w') \<Longrightarrow>
     reachable_by every T v'"
| r_push_copy:
    "reachable_by every T v \<Longrightarrow> state_of (PushBack_copy T x v w) = Some (v', w') \<Longrightarrow>
     reachable_by every T v'"
| r_push_move:
    "reachable_by every T v \<Longrightarrow> state_of (PushBack_move T x v w) = Some (v', w') \<Longrightarrow>
     reachable_by every T v'"
| r_pop:
    "reachable_by every T v \<Longrightarrow> state_of (PopBack v w) = Some (v', w') \<Longrightarrow>
     reachable_by every T v'"
| r_emplace_back:
    "reachable_by every T v \<Longrightarrow> state_of (EmplaceBack T args v w) = Some (v', w') \<Longrightarrow>
     reachable_by every T v'"
| r_emplace:
    "reachable_by every T v \<Longrightarrow> index \<le> vsize v \<Longrightarrow>
     state_of (Emplace T index args v w) = Some (v', w') \<Longrightarrow>
     every \<or> \<not> in_place_insert_threw T index args v w \<Longrightarrow> reachable_by every T v'"
| r_insert_copy:
    "reachable_by every T v \<Longrightarrow> index \<le> vsize v \<Longrightarrow>
     state_of (Insert_copy T index x v w) = Some (v', w') \<Longrightarrow>
     every \<or> \<not> in_place_insert_threw T index (Lvalue x) v w \<Longrightarrow> reachable_by every T v'"
| r_insert_move:
    "reachable_by every T v \<Longrightarrow> index \<le> vsize v \<Longrightarrow>
     state_of (Insert_move T index x v w) = Some (v', w') \<Longrightarrow>
     every \<or> \<not> in_place_insert_threw T index (Rvalue x) v w \<Longrightarrow> reachable_by every T v'"
| r_erase:
    "reachable_by every T v \<Longrightarrow> state_of (Erase T index v w) = Some (v', w') \<Longrightarrow>
     reachable_by every T v'"
| r_write:
    "reachable_by every T v \<Longrightarrow> index < vsize v \<Longrightarrow>
     reachable_by every T (with_buffer v ((buffer (data v))[index := Some x]))"

abbreviation reachable :: "'a elem_type \<Rightarrow> 'a Vector \<Rightarrow> bool" where
  "reachable \<equiv> reachable_by True"

section \<open>Example element types and worlds\<close>

text \<open>
  Two element types over strings: one like \<^verbatim>\<open>std::string\<close>, whose moves cannot throw
  and leave the source empty, and one whose copies, moves and assignments may all throw.
  In the quiet world no operation fails.
\<close>

definition Str_nothrow :: "string elem_type" where
  "Str_nothrow =
     \<lparr>nothrow_move_constructible = True, copy_constructible = True,
      nothrow_move_assignable = True, moved_from = (\<lambda>_. []), value_init = [], sizeof = 32\<rparr>"

definition Str_throwing :: "string elem_type" where
  "Str_throwing =
     \<lparr>nothrow_move_constructible = False, copy_constructible = True,
      nothrow_move_assignable = False, moved_from = (\<lambda>_. []), value_init = [], sizeof = 32\<rparr>"

definition quiet :: world where
  "quiet = \<lparr>op_faults = [], alloc_faults = [], tally = (\<lambda>_. 0)\<rparr>"

definition failing_at :: "nat \<Rightarrow> world" where
  "failing_at k = quiet\<lparr>op_faults := replicate k False @ [True]\<rparr>"

definition vec :: "'a list \<Rightarrow> nat \<Rightarrow> 'a Vector" where
  "vec xs spare =
     \<lparr>data = \<lparr>buffer = map Some xs @ replicate spare None, capacity = length xs + spare\<rparr>,
      vsize = length xs\<rparr>"

text \<open>
  The copy and move constructions the construction of the new element itself accounts
  for: one copy for an lvalue argument, one move for an rvalue argument.
\<close>

fun copies_of :: "'a call_args \<Rightarrow> nat" where
  "copies_of (Lvalue _) = 1"
| "copies_of (Rvalue _) = 0"
| "copies_of (Other _) = 0"

fun moves_of :: "'a call_args \<Rightarrow> nat" where
  "moves_of (Lvalue _) = 0"
| "moves_of (Rvalue _) = 1"
| "moves_of (Other _) = 0"

text \<open>Arguments that name objects outside the vector, given by what the constructor gets.\<close>

fun external :: "'a ctor_args \<Rightarrow> 'a call_args" where
  "external (CopyOf x) = Lvalue (Outside x)"
| "external (MoveOf x) = Rvalue (Outside x)"
| "external (Args x) = Other x"

definition two_vectors :: "'a Vector \<Rightarrow> 'a Vector \<Rightarrow> nat \<Rightarrow> 'a Vector" where
  "two_vectors a b p = (if p = 0 then a else b)"

text \<open>
  The public operations that can change a vector, each with the arguments of the call. An
  operation with a second vector carries it: \<open>Assign_copy_of rhs\<close> is \<^verbatim>\<open>*this = rhs\<close> for
  another object \<open>rhs\<close>, \<open>Assign_move_of rhs\<close> is \<^verbatim>\<open>*this = std::move(rhs)\<close>,
  \<open>Move_assigned_to lhs\<close> is \<^verbatim>\<open>lhs = std::move(*this)\<close>, \<open>Moved_from\<close> is the move
  construction of another vector from this one, and \<open>Swap_with other\<close> is
  \<^verbatim>\<open>Swap(other)\<close> called on either of the two. \<open>Write_at\<close> assigns to an element through
  \<^verbatim>\<open>operator[]\<close>. \<open>perform\<close> runs an operation on a vector and gives the state it leaves
  this vector in.
\<close>

datatype 'a operation =
    Reserve_to nat
  | Resize_to nat
  | PushBack_of "'a ref"
  | PushBack_move_of "'a ref"
  | EmplaceBack_of "'a call_args"
  | PopBack_last
  | Emplace_at nat "'a call_args"
  | Insert_at nat "'a ref"
  | Insert_move_at nat "'a ref"
  | Erase_at nat
  | Write_at nat 'a
  | Assign_copy_of "'a Vector"
  | Assign_self
  | Assign_move_of "'a Vector"
  | Move_assigned_to "'a Vector"
  | Moved_from
  | Swap_with "'a Vector"

definition no_result :: "('r, 's) outcome \<Rightarrow> (unit, 's) outcome" where
  "no_result r = (case r of Returned _ s \<Rightarrow> Returned () s | Threw e s \<Rightarrow> Threw e s
                  | Undefined \<Rightarrow> Undefined)"

definition at_address :: "nat \<Rightarrow> ('r, (nat \<Rightarrow> 'v) \<times> world) outcome \<Rightarrow> (unit, 'v \<times> world) outcome" where
  "at_address p r = (case r of Returned _ (st, w) \<Rightarrow> Returned () (st p, w)
                     | Threw e (st, w) \<Rightarrow> Threw e (st p, w) | Undefined \<Rightarrow> Undefined)"

fun perform ::
  "'a elem_type \<Rightarrow> 'a operation \<Rightarrow> 'a Vector \<Rightarrow> world \<Rightarrow> (unit, 'a Vector \<times> world) outcome" where
  "perform T (Reserve_to n) v w = Reserve T n v w"
| "perform T (Resize_to n) v w = Resize T n v w"
| "perform T (PushBack_of x) v w = PushBack_copy T x v w"
| "perform T (PushBack_move_of x) v w = PushBack_move T x v w"
| "perform T (EmplaceBack_of args) v w = no_result (EmplaceBack T args v w)"
| "perform T PopBack_last v w = PopBack v w"
| "perform T (Emplace_at index args) v w = no_result (Emplace T index args v w)"
| "perform T (Insert_at index x) v w = no_result (Insert_copy T index x v w)"
| "perform T (Insert_move_at index x) v w = no_result (Insert_move T index x v w)"
| "perform T (Erase_at index) v w = no_result (Erase T index v w)"
| "perform T (Write_at index x) v w =
     (if index < vsize v then Returned () (with_buffer v ((buffer (data v))[index := Some x]), w)
      else Undefined)"
| "perform T (Assign_copy_of rhs) v w =
     at_address 0 (operator_assign_copy T 0 1 (two_vectors v rhs) w)"
| "perform T Assign_self v w = at_address 0 (operator_assign_copy T 0 0 (two_vectors v v) w)"
| "perform T (Assign_move_of rhs) v w =
     Returned () (operator_assign_move 0 1 (two_vectors v rhs) 0, w)"
| "perform T (Move_assigned_to lhs) v w =
     Returned () (operator_assign_move 1 0 (two_vectors v lhs) 0, w)"
| "perform T Moved_from v w = Returned () (snd (Vector_move v), w)"
| "perform T (Swap_with other) v w = Returned () (fst (Swap v other), w)"

text \<open>
  The operations that may change the capacity: \<^verbatim>\<open>Reserve\<close> beyond the capacity, also when a
  growing \<^verbatim>\<open>Resize\<close> calls it, an append or an insertion into a full vector, a copy
  assignment from a source larger than the capacity, the move operations and
  \<^verbatim>\<open>Swap\<close>.
\<close>

fun may_change_capacity :: "'a operation \<Rightarrow> 'a Vector \<Rightarrow> bool" where
  "may_change_capacity (Reserve_to n) v = (Capacity v < n)"
| "may_change_capacity (Resize_to n) v = (vsize v \<le> n \<and> Capacity v < n)"
| "may_change_capacity (PushBack_of x) v = (vsize v = Capacity v)"
| "may_change_capacity (PushBack_move_of x) v = (vsize v = Capacity v)"
| "may_change_capacity (EmplaceBack_of args) v = (vsize v = Capacity v)"
| "may_change_capacity PopBack_last v = False"
| "may_change_capacity (Emplace_at index args) v = (vsize v = Capacity v)"
| "may_change_capacity (Insert_at index x) v = (vsize v = Capacity v)"
| "may_change_capacity (Insert_move_at index x) v = (vsize v = Capacity v)"
| "may_change_capacity (Erase_at index) v = False"
| "may_change_capacity (Write_at index x) v = False"
| "may_change_capacity (Assign_copy_of rhs) v = (Capacity v < vsize rhs)"
| "may_change_capacity Assign_self v = False"
| "may_change_capacity (Assign_move_of rhs) v = True"
| "may_change_capacity (Move_assigned_to lhs) v = True"
| "may_change_capacity Moved_from v = True"
| "may_change_capacity (Swap_with other) v = True"

text \<open>\<open>leaves r v\<close>: the operation returned or threw, and left the vector in state \<open>v\<close>.\<close>

fun leaves :: "('r, 'v \<times> world) outcome \<Rightarrow> 'v \<Rightarrow> bool" where
  "leaves (Returned _ (v', _)) v = (v' = v)"
| "leaves (Threw _ (v', _)) v = (v' = v)"
| "leaves Undefined v = False"

section \<open>Facts about the element operations and the algorithms\<close>

lemma state_of_Some_iff:
  "state_of r = Some s \<longleftrightarrow> (\<exists>u. r = Returned u s) \<or> (\<exists>e. r = Threw e s)"
  by (cases r) auto

lemma tally_count [simp]: "tally (count ev n w) = (tally w)(ev := tally w ev + n)"
  by (simp add: count_def)

lemma op_faults_count [simp]: "op_faults (count ev n w) = op_faults w"
  by (simp add: count_def)

lemma alloc_faults_count [simp]: "alloc_faults (count ev n w) = alloc_faults w"
  by (simp add: count_def)

lemma throws_next_tally: "throws_next w = (b, w') \<Longrightarrow> tally w' = tally w"
  by (auto simp: throws_next_def split: list.splits)

lemma copy_construct_Returned:
  "copy_construct x w = Returned y w' \<Longrightarrow> y = x \<and> tally w' = (tally w)(Copied := tally w Copied + 1)"
  by (auto simp: copy_construct_def dest: throws_next_tally split: prod.splits bool.splits)

lemma copy_construct_defined [simp]: "copy_construct x w \<noteq> Undefined"
  by (auto simp: copy_construct_def split: prod.splits bool.splits)

lemma move_construct_Returned:
  "move_construct T x w = Returned (y, x') w' \<Longrightarrow>
     y = x \<and> x' = moved_from T x \<and> tally w' = (tally w)(Moved := tally w Moved + 1)"
  by (auto simp: move_construct_def dest: throws_next_tally split: prod.splits bool.splits if_splits)

lemma move_construct_defined [simp]: "move_construct T x w \<noteq> Undefined"
  by (auto simp: move_construct_def split: prod.splits bool.splits)

lemma move_construct_nothrow:
  "nothrow_move_constructible T \<Longrightarrow> move_construct T x w = Returned (x, moved_from T x) (count Moved 1 w)"
  by (simp add: move_construct_def)

lemma value_construct_Returned:
  "value_construct T w = Returned y w' \<Longrightarrow>
     y = value_init T \<and> tally w' = (tally w)(Constructed := tally w Constructed + 1)"
  by (auto simp: value_construct_def dest: throws_next_tally split: prod.splits bool.splits)

lemma value_construct_defined [simp]: "value_construct T w \<noteq> Undefined"
  by (auto simp: value_construct_def split: prod.splits bool.splits)

lemma copy_assign_Returned:
  "copy_assign x w = Returned y w' \<Longrightarrow>
     y = x \<and> tally w' = (tally w)(CopyAssigned := tally w CopyAssigned + 1)"
  by (auto simp: copy_assign_def dest: throws_next_tally split: prod.splits bool.splits)

lemma move_assign_Returned:
  "move_assign T x w = Returned (y, x') w' \<Longrightarrow>
     y = x \<and> x' = moved_from T x \<and> tally w' = (tally w)(MoveAssigned := tally w MoveAssigned + 1)"
  by (auto simp: move_assign_def dest: throws_next_tally split: prod.splits bool.splits if_splits)

lemma move_assign_nothrow:
  "nothrow_move_assignable T \<Longrightarrow> move_assign T x w = Returned (x, moved_from T x) (count MoveAssigned 1 w)"
  by (simp add: move_assign_def)

lemma construct_from_Returned:
  "construct_from T args w = Returned y w' \<Longrightarrow>
     y = arg_value args \<and>
     tally w' = (tally w)((case args of CopyOf _ \<Rightarrow> Copied | MoveOf _ \<Rightarrow> Moved | Args _ \<Rightarrow> Constructed)
                  := tally w (case args of CopyOf _ \<Rightarrow> Copied | MoveOf _ \<Rightarrow> Moved | Args _ \<Rightarrow> Constructed) + 1)"
  by (cases args)
     (auto dest!: copy_construct_Returned move_construct_Returned throws_next_tally
           split: outcome.splits prod.splits bool.splits)

subsection \<open>Destruction\<close>

lemma destroy_n_length [simp]: "length (fst (destroy_n buf j n w)) = length buf"
  by (induction n arbitrary: buf j w) auto

lemma destroy_n_nth:
  "k < length buf \<Longrightarrow> fst (destroy_n buf j n w) ! k = (if j \<le> k \<and> k < j + n then None else buf ! k)"
  by (induction n arbitrary: buf j w) (auto simp: nth_list_update)

lemma destroy_n_world [simp]: "snd (destroy_n buf j n w) = count Destroyed n w"
  by (induction n arbitrary: buf j w) (auto simp: count_def)

subsection \<open>Copy construction into raw slots\<close>

lemma ucn_Suc_Returned:
  assumes "uninitialized_copy_n src i (Suc n) dst j w = Returned () s"
  obtains x w1 where "slot_at src i = Some x" "j < length dst"
    "copy_construct x w = Returned x w1"
    "uninitialized_copy_n src (Suc i) n (dst[j := Some x]) (Suc j) w1 = Returned () s"
proof -
  from assms obtain x y w1 where a: "slot_at src i = Some x" "j < length dst"
    "copy_construct x w = Returned y w1"
    "uninitialized_copy_n src (Suc i) n (dst[j := Some y]) (Suc j) w1 = Returned () s"
    by (auto split: option.splits if_splits outcome.splits)
  from copy_construct_Returned[OF a(3)] have "y = x" by simp
  with a that show thesis by simp
qed

lemma ucn_Suc_Threw:
  assumes "uninitialized_copy_n src i (Suc n) dst j w = Threw e (src', dst', w')"
  obtains (here) x where "slot_at src i = Some x" "j < length dst"
      "copy_construct x w = Threw e w'" "src' = src" "dst' = dst"
  | (later) x w1 d2 w2 where "slot_at src i = Some x" "j < length dst"
      "copy_construct x w = Returned x w1"
      "uninitialized_copy_n src (Suc i) n (dst[j := Some x]) (Suc j) w1 = Threw e (src', d2, w2)"
      "dst' = d2[j := None]" "w' = count Destroyed 1 w2"
proof -
  from assms obtain x where x: "slot_at src i = Some x" "j < length dst"
    by (auto split: option.splits if_splits)
  show thesis
  proof (cases "copy_construct x w")
    case (Returned y w1)
    from copy_construct_Returned[OF Returned] have y: "y = x" by simp
    from assms x Returned y obtain d2 w2 where
      "uninitialized_copy_n src (Suc i) n (dst[j := Some x]) (Suc j) w1 = Threw e (src', d2, w2)"
      "dst' = d2[j := None]" "w' = count Destroyed 1 w2"
      by (auto split: outcome.splits)
    with x Returned y show thesis by (intro later) auto
  next
    case (Threw e1 w1)
    with assms x show thesis by (intro here) auto
  next
    case Undefined
    then show thesis by simp
  qed
qed

lemma ucn_Returned_state:
  "uninitialized_copy_n src i n dst j w = Returned () (src', dst', w') \<Longrightarrow>
     src' = src \<and> length dst' = length dst"
proof (induction n arbitrary: i dst j w)
  case 0
  then show ?case by simp
next
  case (Suc n)
  from Suc.prems show ?case
    by (elim ucn_Suc_Returned) (auto dest: Suc.IH)
qed

lemma ucn_Threw_state:
  "uninitialized_copy_n src i n dst j w = Threw e (src', dst', w') \<Longrightarrow>
     src' = src \<and> length dst' = length dst"
proof (induction n arbitrary: i dst j w dst' w')
  case 0
  then show ?case by simp
next
  case (Suc n)
  from Suc.prems show ?case
    by (elim ucn_Suc_Threw) (auto dest: Suc.IH)
qed

lemma ucn_Returned_nth:
  "uninitialized_copy_n src i n dst j w = Returned () (src', dst', w') \<Longrightarrow> k < length dst \<Longrightarrow>
     dst' ! k = (if j \<le> k \<and> k < j + n then slot_at src (i + k - j) else dst ! k)"
proof (induction n arbitrary: i dst j w)
  case 0
  then show ?case by auto
next
  case (Suc n)
  from Suc.prems(1) show ?case
  proof (elim ucn_Suc_Returned)
    fix x w1
    assume a: "slot_at src i = Some x" "j < length dst"
      and rec: "uninitialized_copy_n src (Suc i) n (dst[j := Some x]) (Suc j) w1 = Returned () (src', dst', w')"
    have "dst' ! k = (if Suc j \<le> k \<and> k < Suc j + n then slot_at src (Suc i + k - Suc j)
                      else dst[j := Some x] ! k)"
      using Suc.IH[OF rec] Suc.prems(2) by simp
    then show ?thesis using a Suc.prems(2)
      by (cases "k = j") (auto simp: nth_list_update)
  qed
qed

lemma ucn_Returned_src:
  "uninitialized_copy_n src i n dst j w = Returned () (src', dst', w') \<Longrightarrow> k < n \<Longrightarrow>
     slot_at src (i + k) \<noteq> None \<and> j + k < length dst"
proof (induction n arbitrary: i dst j w k)
  case 0
  then show ?case by simp
next
  case (Suc n)
  from Suc.prems(1) show ?case
  proof (elim ucn_Suc_Returned)
    fix x w1
    assume a: "slot_at src i = Some x" "j < length dst"
      and rec: "uninitialized_copy_n src (Suc i) n (dst[j := Some x]) (Suc j) w1 = Returned () (src', dst', w')"
    show ?thesis
    proof (cases k)
      case 0
      with a show ?thesis by simp
    next
      case (Suc k')
      with Suc.IH[OF rec, of k'] Suc.prems(2) show ?thesis by simp
    qed
  qed
qed

lemma ucn_Returned_tally:
  "uninitialized_copy_n src i n dst j w = Returned () (src', dst', w') \<Longrightarrow>
     tally w' = (tally w)(Copied := tally w Copied + n)"
proof (induction n arbitrary: i dst j w)
  case 0
  then show ?case by simp
next
  case (Suc n)
  from Suc.prems show ?case
    by (elim ucn_Suc_Returned) (auto dest!: Suc.IH copy_construct_Returned simp: fun_eq_iff)
qed

lemma ucn_Threw_nth:
  "uninitialized_copy_n src i n dst j w = Threw e (src', dst', w') \<Longrightarrow> k < length dst \<Longrightarrow>
     dst' ! k = dst ! k \<or> (j \<le> k \<and> k < j + n \<and> dst' ! k = None)"
proof (induction n arbitrary: i dst j w dst' w')
  case 0
  then show ?case by simp
next
  case (Suc n)
  from Suc.prems(1) show ?case
  proof (cases rule: ucn_Suc_Threw)
    case here
    then show ?thesis by simp
  next
    case (later x w1 d2 w2)
    from Suc.IH[OF later(4)] Suc.prems(2) ucn_Threw_state[OF later(4)] later(2,5)
    show ?thesis
      by (cases "k = j") (auto simp: nth_list_update)
  qed
qed

subsection \<open>Raw memory and vector fields\<close>

lemma block_slots_0 [simp]: "block_slots T 0 = 0"
  by (simp add: block_slots_def)

lemma block_slots_le: "block_slots T n \<le> n"
proof (cases "sizeof T = 0")
  case True
  then show ?thesis by (simp add: block_slots_def)
next
  case False
  have "(n * sizeof T) mod size_t_range div sizeof T \<le> n * sizeof T div sizeof T"
    by (rule div_le_mono) simp
  with False show ?thesis by (simp add: block_slots_def)
qed

lemma block_slots_exact:
  "0 < sizeof T \<Longrightarrow> n * sizeof T < size_t_range \<Longrightarrow> block_slots T n = n"
  by (simp add: block_slots_def)

lemma RawMemory_sized_Returned:
  "RawMemory_sized T n w = Returned m w' \<Longrightarrow>
     capacity m = n \<and> buffer m = replicate (block_slots T n) None"
  by (auto simp: RawMemory_sized_def Allocate_def split: outcome.splits if_splits list.splits)

lemma read_args_external [simp]: "read_args own (external a) = Some a"
  by (cases a) simp_all

lemma moved_out_external [simp]: "moved_out T own (external a) = own"
  by (cases a) simp_all

lemma length_moved_out [simp]: "length (moved_out T own args) = length own"
  by (induction T own args rule: moved_out.induct) (simp_all split: option.splits)

lemma moved_out_nth:
  "k < length own \<Longrightarrow>
     moved_out T own args ! k =
       (if args = Rvalue (Element k) then map_option (moved_from T) (own ! k) else own ! k)"
  by (induction T own args rule: moved_out.induct)
     (auto simp: slot_at_def nth_list_update split: option.splits)

lemma moved_out_None_iff:
  "k < length own \<Longrightarrow> moved_out T own args ! k = None \<longleftrightarrow> own ! k = None"
  by (simp add: moved_out_nth)

lemma slot_at_moved_out_None_iff:
  "slot_at (moved_out T own args) k = None \<longleftrightarrow> slot_at own k = None"
  by (simp add: slot_at_def moved_out_None_iff)

lemma read_args_kind:
  "read_args own args = Some a \<Longrightarrow>
     (case a of CopyOf _ \<Rightarrow> copies_of args = 1 \<and> moves_of args = 0
              | MoveOf _ \<Rightarrow> copies_of args = 0 \<and> moves_of args = 1
              | Args _ \<Rightarrow> copies_of args = 0 \<and> moves_of args = 0)"
  by (cases args) auto

lemma Capacity_with_buffer [simp]: "Capacity (with_buffer v b) = Capacity v"
  by (simp add: Capacity_def with_buffer_def)

lemma vsize_with_buffer [simp]: "vsize (with_buffer v b) = vsize v"
  by (simp add: with_buffer_def)

lemma buffer_with_buffer [simp]: "buffer (data (with_buffer v b)) = b"
  by (simp add: with_buffer_def)

lemma capacity_with_buffer [simp]: "capacity (data (with_buffer v b)) = capacity (data v)"
  by (simp add: with_buffer_def)

lemma Capacity_vsize_update [simp]: "Capacity (v\<lparr>vsize := n\<rparr>) = Capacity v"
  by (simp add: Capacity_def)

lemma returnedE:
  assumes "returned r"
  obtains x s where "r = Returned x s"
  using assms by (cases r) auto

lemma threwE:
  assumes "threw r"
  obtains e s where "r = Threw e s"
  using assms by (cases r) auto

lemma doubling_fits:
  assumes "n < (n * 2) mod size_t_range"
  shows "(n * 2) mod size_t_range = n * 2"
proof -
  have M: "0 < size_t_range" by (simp add: size_t_range_def)
  have "n * 2 < size_t_range"
  proof (rule ccontr)
    assume "\<not> n * 2 < size_t_range"
    then have ge: "size_t_range \<le> n * 2" by simp
    then have "(n * 2) mod size_t_range = (n * 2 - size_t_range) mod size_t_range"
      by (simp add: le_mod_geq)
    also have "\<dots> \<le> n * 2 - size_t_range" by (rule mod_less_eq_dividend)
    finally have "n < n * 2 - size_t_range" using assms by simp
    then have "size_t_range < n" by simp
    moreover have "(n * 2) mod size_t_range < size_t_range" using M by simp
    ultimately show False using assms by simp
  qed
  then show ?thesis by simp
qed

lemma new_capacity_fits:
  assumes "vsize v < block_slots T (if vsize v = 0 then 1 else (vsize v * 2) mod size_t_range)"
  shows "(if vsize v = 0 then 1 else (vsize v * 2) mod size_t_range)
           = (if vsize v = 0 then 1 else vsize v * 2)"
proof (cases "vsize v = 0")
  case False
  from assms False block_slots_le[of T "(vsize v * 2) mod size_t_range"]
  have "vsize v < (vsize v * 2) mod size_t_range" by simp
  from doubling_fits[OF this] False show ?thesis by simp
qed simp

lemma fits_size_t_new_capacity:
  assumes "fits_size_t T (if vsize v = 0 then 1 else vsize v * 2)"
  shows "(if vsize v = 0 then 1 else (vsize v * 2) mod size_t_range)
           = (if vsize v = 0 then 1 else vsize v * 2)"
proof (cases "vsize v = 0")
  case False
  with assms have pos: "0 < sizeof T" and lt: "vsize v * 2 * sizeof T < size_t_range"
    by (simp_all add: fits_size_t_def)
  from pos have le: "vsize v * 2 \<le> vsize v * 2 * sizeof T" by (cases "sizeof T") simp_all
  from le lt have "vsize v * 2 < size_t_range" by (rule le_less_trans)
  with False show ?thesis by simp
qed simp

subsection \<open>Move construction into raw slots\<close>

lemma slot_at_update:
  "slot_at (buf[i := s]) k = (if k = i \<and> i < length buf then s else slot_at buf k)"
  by (auto simp: slot_at_def)

lemma slot_at_Some_length: "slot_at buf i = Some x \<Longrightarrow> i < length buf \<and> buf ! i = Some x"
  by (auto simp: slot_at_def split: if_splits)

lemma umn_Suc_Returned:
  assumes "uninitialized_move_n T src i (Suc n) dst j w = Returned () s"
  obtains x w1 where "slot_at src i = Some x" "j < length dst"
    "move_construct T x w = Returned (x, moved_from T x) w1"
    "uninitialized_move_n T (src[i := Some (moved_from T x)]) (Suc i) n (dst[j := Some x]) (Suc j) w1
       = Returned () s"
proof -
  from assms obtain x y x' w1 where a: "slot_at src i = Some x" "j < length dst"
    "move_construct T x w = Returned (y, x') w1"
    "uninitialized_move_n T (src[i := Some x']) (Suc i) n (dst[j := Some y]) (Suc j) w1 = Returned () s"
    by (auto split: option.splits if_splits outcome.splits)
  from move_construct_Returned[OF a(3)] have "y = x" "x' = moved_from T x" by simp_all
  with a that show thesis by simp
qed

lemma umn_Suc_Threw:
  assumes "uninitialized_move_n T src i (Suc n) dst j w = Threw e (src', dst', w')"
  obtains (here) x where "slot_at src i = Some x" "j < length dst"
      "move_construct T x w = Threw e w'" "src' = src" "dst' = dst"
  | (later) x w1 d2 w2 where "slot_at src i = Some x" "j < length dst"
      "move_construct T x w = Returned (x, moved_from T x) w1"
      "uninitialized_move_n T (src[i := Some (moved_from T x)]) (Suc i) n (dst[j := Some x]) (Suc j) w1
         = Threw e (src', d2, w2)"
      "dst' = d2[j := None]" "w' = count Destroyed 1 w2"
proof -
  from assms obtain x where x: "slot_at src i = Some x" "j < length dst"
    by (auto split: option.splits if_splits)
  show thesis
  proof (cases "move_construct T x w")
    case (Returned p w1)
    then have p: "p = (x, moved_from T x)"
      using move_construct_Returned[of T x w "fst p" "snd p" w1] by (cases p) simp
    from assms x Returned p obtain d2 w2 where
      "uninitialized_move_n T (src[i := Some (moved_from T x)]) (Suc i) n (dst[j := Some x]) (Suc j) w1
         = Threw e (src', d2, w2)"
      "dst' = d2[j := None]" "w' = count Destroyed 1 w2"
      by (auto split: outcome.splits)
    with x Returned p show thesis by (intro later) auto
  next
    case (Threw e1 w1)
    with assms x show thesis by (intro here) auto
  next
    case Undefined
    then show thesis by simp
  qed
qed

lemma umn_Returned_state:
  "uninitialized_move_n T src i n dst j w = Returned () (src', dst', w') \<Longrightarrow>
     length src' = length src \<and> length dst' = length dst"
proof (induction n arbitrary: src i dst j w)
  case 0
  then show ?case by simp
next
  case (Suc n)
  from Suc.prems show ?case
    by (elim umn_Suc_Returned) (auto dest: Suc.IH)
qed

lemma umn_Threw_state:
  "uninitialized_move_n T src i n dst j w = Threw e (src', dst', w') \<Longrightarrow>
     length src' = length src \<and> length dst' = length dst"
proof (induction n arbitrary: src i dst j w dst' w')
  case 0
  then show ?case by simp
next
  case (Suc n)
  from Suc.prems show ?case
    by (elim umn_Suc_Threw) (auto dest: Suc.IH)
qed

lemma umn_Returned_nth:
  "uninitialized_move_n T src i n dst j w = Returned () (src', dst', w') \<Longrightarrow> k < length dst \<Longrightarrow>
     dst' ! k = (if j \<le> k \<and> k < j + n then slot_at src (i + k - j) else dst ! k)"
proof (induction n arbitrary: src i dst j w)
  case 0
  then show ?case by auto
next
  case (Suc n)
  from Suc.prems(1) show ?case
  proof (elim umn_Suc_Returned)
    fix x w1
    assume a: "slot_at src i = Some x" "j < length dst"
      and rec: "uninitialized_move_n T (src[i := Some (moved_from T x)]) (Suc i) n
                  (dst[j := Some x]) (Suc j) w1 = Returned () (src', dst', w')"
    have "dst' ! k = (if Suc j \<le> k \<and> k < Suc j + n
                      then slot_at (src[i := Some (moved_from T x)]) (Suc i + k - Suc j)
                      else dst[j := Some x] ! k)"
      using Suc.IH[OF rec] Suc.prems(2) by simp
    then show ?thesis using a Suc.prems(2)
      by (cases "k = j") (auto simp: nth_list_update slot_at_update)
  qed
qed

lemma umn_Returned_src_nth:
  "uninitialized_move_n T src i n dst j w = Returned () (src', dst', w') \<Longrightarrow> k < length src \<Longrightarrow>
     src' ! k = (if i \<le> k \<and> k < i + n then map_option (moved_from T) (src ! k) else src ! k)"
proof (induction n arbitrary: src i dst j w)
  case 0
  then show ?case by auto
next
  case (Suc n)
  from Suc.prems(1) show ?case
  proof (elim umn_Suc_Returned)
    fix x w1
    assume a: "slot_at src i = Some x" "j < length dst"
      and rec: "uninitialized_move_n T (src[i := Some (moved_from T x)]) (Suc i) n
                  (dst[j := Some x]) (Suc j) w1 = Returned () (src', dst', w')"
    have "src' ! k = (if Suc i \<le> k \<and> k < Suc i + n
                      then map_option (moved_from T) (src[i := Some (moved_from T x)] ! k)
                      else src[i := Some (moved_from T x)] ! k)"
      using Suc.IH[OF rec] Suc.prems(2) by simp
    then show ?thesis using slot_at_Some_length[OF a(1)] Suc.prems(2)
      by (cases "k = i") (auto simp: nth_list_update)
  qed
qed

lemma occupied_length [simp]: "length (occupied buf) = length buf"
  by (simp add: occupied_def)

lemma occupied_nth [simp]: "k < length buf \<Longrightarrow> occupied buf ! k = (buf ! k \<noteq> None)"
  by (simp add: occupied_def)

lemma occupied_moved_out [simp]: "occupied (moved_out T own args) = occupied own"
  by (simp add: list_eq_iff_nth_eq moved_out_None_iff)

lemma occupied_update_Some:
  "slot_at buf i = Some x \<Longrightarrow> occupied (buf[i := Some y]) = occupied buf"
  by (auto simp: occupied_def slot_at_def list_eq_iff_nth_eq nth_list_update split: if_splits)

lemma umn_Returned_occupied:
  "uninitialized_move_n T src i n dst j w = Returned () (src', dst', w') \<Longrightarrow>
     occupied src' = occupied src"
proof (induction n arbitrary: src i dst j w)
  case 0
  then show ?case by simp
next
  case (Suc n)
  from Suc.prems show ?case
    by (elim umn_Suc_Returned) (auto dest!: Suc.IH simp: occupied_update_Some)
qed

lemma umn_Threw_occupied:
  "uninitialized_move_n T src i n dst j w = Threw e (src', dst', w') \<Longrightarrow>
     occupied src' = occupied src"
proof (induction n arbitrary: src i dst j w dst' w')
  case 0
  then show ?case by simp
next
  case (Suc n)
  from Suc.prems show ?case
    by (elim umn_Suc_Threw) (auto dest!: Suc.IH simp: occupied_update_Some)
qed

lemma umn_Returned_src:
  "uninitialized_move_n T src i n dst j w = Returned () (src', dst', w') \<Longrightarrow> k < n \<Longrightarrow>
     slot_at src (i + k) \<noteq> None \<and> j + k < length dst"
proof (induction n arbitrary: src i dst j w k)
  case 0
  then show ?case by simp
next
  case (Suc n)
  from Suc.prems(1) show ?case
  proof (elim umn_Suc_Returned)
    fix x w1
    assume a: "slot_at src i = Some x" "j < length dst"
      and rec: "uninitialized_move_n T (src[i := Some (moved_from T x)]) (Suc i) n
                  (dst[j := Some x]) (Suc j) w1 = Returned () (src', dst', w')"
    show ?thesis
    proof (cases k)
      case 0
      with a show ?thesis by simp
    next
      case (Suc k')
      with Suc.IH[OF rec, of k'] Suc.prems(2) show ?thesis by (simp add: slot_at_update)
    qed
  qed
qed

lemma umn_Returned_tally:
  "uninitialized_move_n T src i n dst j w = Returned () (src', dst', w') \<Longrightarrow>
     tally w' = (tally w)(Moved := tally w Moved + n)"
proof (induction n arbitrary: src i dst j w)
  case 0
  then show ?case by simp
next
  case (Suc n)
  from Suc.prems show ?case
    by (elim umn_Suc_Returned) (auto dest!: Suc.IH move_construct_Returned simp: fun_eq_iff)
qed

lemma umn_Threw_nth:
  "uninitialized_move_n T src i n dst j w = Threw e (src', dst', w') \<Longrightarrow> k < length dst \<Longrightarrow>
     dst' ! k = dst ! k \<or> (j \<le> k \<and> k < j + n \<and> dst' ! k = None)"
proof (induction n arbitrary: src i dst j w dst' w')
  case 0
  then show ?case by simp
next
  case (Suc n)
  from Suc.prems(1) show ?case
  proof (cases rule: umn_Suc_Threw)
    case here
    then show ?thesis by simp
  next
    case (later x w1 d2 w2)
    from Suc.IH[OF later(4)] Suc.prems(2) umn_Threw_state[OF later(4)] later(2,5)
    show ?thesis
      by (cases "k = j") (auto simp: nth_list_update)
  qed
qed

subsection \<open>Value construction into raw slots\<close>

lemma uvn_Suc_Returned:
  assumes "uninitialized_value_construct_n T dst j (Suc n) w = Returned () s"
  obtains w1 where "j < length dst"
    "value_construct T w = Returned (value_init T) w1"
    "uninitialized_value_construct_n T (dst[j := Some (value_init T)]) (Suc j) n w1 = Returned () s"
proof -
  from assms obtain y w1 where a: "j < length dst"
    "value_construct T w = Returned y w1"
    "uninitialized_value_construct_n T (dst[j := Some y]) (Suc j) n w1 = Returned () s"
    by (auto split: option.splits if_splits outcome.splits)
  from value_construct_Returned[OF a(2)] have "y = value_init T" by simp
  with a that show thesis by simp
qed

lemma uvn_Suc_Threw:
  assumes "uninitialized_value_construct_n T dst j (Suc n) w = Threw e (dst', w')"
  obtains (here) "j < length dst" "value_construct T w = Threw e w'" "dst' = dst"
  | (later) w1 d2 w2 where "j < length dst"
      "value_construct T w = Returned (value_init T) w1"
      "uninitialized_value_construct_n T (dst[j := Some (value_init T)]) (Suc j) n w1
         = Threw e (d2, w2)"
      "dst' = d2[j := None]" "w' = count Destroyed 1 w2"
proof -
  from assms have x: "j < length dst"
    by (auto split: if_splits)
  show thesis
  proof (cases "value_construct T w")
    case (Returned y w1)
    from value_construct_Returned[OF Returned] have y: "y = value_init T" by simp
    from assms x Returned y obtain d2 w2 where
      "uninitialized_value_construct_n T (dst[j := Some (value_init T)]) (Suc j) n w1
         = Threw e (d2, w2)"
      "dst' = d2[j := None]" "w' = count Destroyed 1 w2"
      by (auto split: outcome.splits)
    with x Returned y show thesis by (intro later) auto
  next
    case (Threw e1 w1)
    with assms x show thesis by (intro here) auto
  next
    case Undefined
    then show thesis by simp
  qed
qed

lemma uvn_Returned_length:
  "uninitialized_value_construct_n T dst j n w = Returned () (dst', w') \<Longrightarrow>
     length dst' = length dst"
proof (induction n arbitrary: dst j w)
  case 0
  then show ?case by simp
next
  case (Suc n)
  from Suc.prems show ?case
    by (elim uvn_Suc_Returned) (auto dest: Suc.IH)
qed

lemma uvn_Threw_length:
  "uninitialized_value_construct_n T dst j n w = Threw e (dst', w') \<Longrightarrow>
     length dst' = length dst"
proof (induction n arbitrary: dst j w dst' w')
  case 0
  then show ?case by simp
next
  case (Suc n)
  from Suc.prems show ?case
    by (elim uvn_Suc_Threw) (auto dest: Suc.IH)
qed

lemma uvn_Returned_nth:
  "uninitialized_value_construct_n T dst j n w = Returned () (dst', w') \<Longrightarrow> k < length dst \<Longrightarrow>
     dst' ! k = (if j \<le> k \<and> k < j + n then Some (value_init T) else dst ! k)"
proof (induction n arbitrary: dst j w)
  case 0
  then show ?case by auto
next
  case (Suc n)
  from Suc.prems(1) show ?case
  proof (elim uvn_Suc_Returned)
    fix w1
    assume a: "j < length dst"
      and rec: "uninitialized_value_construct_n T (dst[j := Some (value_init T)]) (Suc j) n w1
                  = Returned () (dst', w')"
    have "dst' ! k = (if Suc j \<le> k \<and> k < Suc j + n then Some (value_init T)
                      else dst[j := Some (value_init T)] ! k)"
      using Suc.IH[OF rec] Suc.prems(2) by simp
    then show ?thesis using a Suc.prems(2)
      by (cases "k = j") (auto simp: nth_list_update)
  qed
qed

lemma uvn_Returned_bound:
  "uninitialized_value_construct_n T dst j n w = Returned () (dst', w') \<Longrightarrow> 0 < n \<Longrightarrow>
     j + n \<le> length dst"
proof (induction n arbitrary: dst j w)
  case 0
  then show ?case by simp
next
  case (Suc n)
  from Suc.prems(1) show ?case
  proof (elim uvn_Suc_Returned)
    fix w1
    assume a: "j < length dst"
      and rec: "uninitialized_value_construct_n T (dst[j := Some (value_init T)]) (Suc j) n w1
                  = Returned () (dst', w')"
    show ?thesis
    proof (cases n)
      case 0
      with a show ?thesis by simp
    next
      case (Suc m)
      with Suc.IH[OF rec] show ?thesis by simp
    qed
  qed
qed

lemma uvn_Threw_nth:
  "uninitialized_value_construct_n T dst j n w = Threw e (dst', w') \<Longrightarrow> k < length dst \<Longrightarrow>
     dst' ! k = dst ! k \<or> (j \<le> k \<and> k < j + n \<and> dst' ! k = None)"
proof (induction n arbitrary: dst j w dst' w')
  case 0
  then show ?case by simp
next
  case (Suc n)
  from Suc.prems(1) show ?case
  proof (cases rule: uvn_Suc_Threw)
    case here
    then show ?thesis by simp
  next
    case (later w1 d2 w2)
    from Suc.IH[OF later(3)] Suc.prems(2) uvn_Threw_length[OF later(3)] later(1,4)
    show ?thesis
      by (cases "k = j") (auto simp: nth_list_update)
  qed
qed

subsection \<open>Assignment loops\<close>

lemma copy_assign_defined [simp]: "copy_assign x w \<noteq> Undefined"
  by (auto simp: copy_assign_def split: prod.splits bool.splits)

lemma move_assign_defined [simp]: "move_assign T x w \<noteq> Undefined"
  by (auto simp: move_assign_def split: prod.splits bool.splits)

lemma cpn_Suc_Returned:
  assumes "copy_n src i (Suc n) dst j w = Returned () s"
  obtains x z w1 where "slot_at src i = Some x" "slot_at dst j = Some z"
    "copy_assign x w = Returned x w1"
    "copy_n src (Suc i) n (dst[j := Some x]) (Suc j) w1 = Returned () s"
proof -
  from assms obtain x z where xz: "slot_at src i = Some x" "slot_at dst j = Some z"
    by (auto split: option.splits)
  show thesis
  proof (cases "copy_assign x w")
    case (Returned y w1)
    from copy_assign_Returned[OF Returned] have y: "y = x" by simp
    from assms xz Returned y
    have "copy_n src (Suc i) n (dst[j := Some x]) (Suc j) w1 = Returned () s" by simp
    with xz Returned y that show thesis by simp
  next
    case (Threw e w1)
    with assms xz show thesis by simp
  next
    case Undefined
    then show thesis by simp
  qed
qed

lemma cpn_Suc_Threw:
  assumes "copy_n src i (Suc n) dst j w = Threw e (dst', w')"
  obtains (here) x z where "slot_at src i = Some x" "slot_at dst j = Some z"
      "copy_assign x w = Threw e w'" "dst' = dst"
  | (later) x z w1 where "slot_at src i = Some x" "slot_at dst j = Some z"
      "copy_assign x w = Returned x w1"
      "copy_n src (Suc i) n (dst[j := Some x]) (Suc j) w1 = Threw e (dst', w')"
proof -
  from assms obtain x z where xz: "slot_at src i = Some x" "slot_at dst j = Some z"
    by (auto split: option.splits)
  show thesis
  proof (cases "copy_assign x w")
    case (Returned y w1)
    from copy_assign_Returned[OF Returned] have y: "y = x" by simp
    from assms xz Returned y
    have "copy_n src (Suc i) n (dst[j := Some x]) (Suc j) w1 = Threw e (dst', w')" by simp
    with xz Returned y show thesis by (intro later) auto
  next
    case (Threw e1 w1)
    with assms xz show thesis by (intro here) auto
  next
    case Undefined
    then show thesis by simp
  qed
qed

lemma cpn_Returned_occupied:
  "copy_n src i n dst j w = Returned () (dst', w') \<Longrightarrow>
     length dst' = length dst \<and> occupied dst' = occupied dst"
proof (induction n arbitrary: i dst j w)
  case 0
  then show ?case by simp
next
  case (Suc n)
  from Suc.prems show ?case
    by (elim cpn_Suc_Returned) (auto dest!: Suc.IH simp: occupied_update_Some)
qed

lemma cpn_Threw_occupied:
  "copy_n src i n dst j w = Threw e (dst', w') \<Longrightarrow>
     length dst' = length dst \<and> occupied dst' = occupied dst"
proof (induction n arbitrary: i dst j w)
  case 0
  then show ?case by simp
next
  case (Suc n)
  from Suc.prems show ?case
    by (elim cpn_Suc_Threw) (auto dest!: Suc.IH simp: occupied_update_Some)
qed

lemma cpn_Returned_nth:
  "copy_n src i n dst j w = Returned () (dst', w') \<Longrightarrow> k < length dst \<Longrightarrow>
     dst' ! k = (if j \<le> k \<and> k < j + n then slot_at src (i + k - j) else dst ! k)"
proof (induction n arbitrary: i dst j w)
  case 0
  then show ?case by auto
next
  case (Suc n)
  from Suc.prems(1) show ?case
  proof (elim cpn_Suc_Returned)
    fix x z w1
    assume a: "slot_at src i = Some x" "slot_at dst j = Some z"
      and rec: "copy_n src (Suc i) n (dst[j := Some x]) (Suc j) w1 = Returned () (dst', w')"
    have "dst' ! k = (if Suc j \<le> k \<and> k < Suc j + n then slot_at src (Suc i + k - Suc j)
                      else dst[j := Some x] ! k)"
      using Suc.IH[OF rec] Suc.prems(2) by simp
    then show ?thesis using a(1) slot_at_Some_length[OF a(2)] Suc.prems(2)
      by (cases "k = j") (auto simp: nth_list_update)
  qed
qed

lemma cpn_Returned_tally:
  "copy_n src i n dst j w = Returned () (dst', w') \<Longrightarrow>
     tally w' = (tally w)(CopyAssigned := tally w CopyAssigned + n)"
proof (induction n arbitrary: i dst j w)
  case 0
  then show ?case by simp
next
  case (Suc n)
  from Suc.prems show ?case
    by (elim cpn_Suc_Returned) (auto dest!: Suc.IH copy_assign_Returned simp: fun_eq_iff)
qed

lemma mvn_Suc_Returned:
  assumes "move_n T buf first (Suc n) d w = Returned () s"
  obtains x z w1 where "slot_at buf first = Some x" "slot_at buf d = Some z"
    "move_assign T x w = Returned (x, moved_from T x) w1"
    "move_n T (buf[first := Some (moved_from T x), d := Some x]) (Suc first) n (Suc d) w1
       = Returned () s"
proof -
  from assms obtain x z where xz: "slot_at buf first = Some x" "slot_at buf d = Some z"
    by (auto split: option.splits)
  show thesis
  proof (cases "move_assign T x w")
    case (Returned p w1)
    then have p: "p = (x, moved_from T x)"
      using move_assign_Returned[of T x w "fst p" "snd p" w1] by (cases p) simp
    from assms xz Returned p
    have "move_n T (buf[first := Some (moved_from T x), d := Some x]) (Suc first) n (Suc d) w1
            = Returned () s" by simp
    with xz Returned p that show thesis by simp
  next
    case (Threw e w1)
    with assms xz show thesis by simp
  next
    case Undefined
    then show thesis by simp
  qed
qed

lemma mvn_Suc_Threw:
  assumes "move_n T buf first (Suc n) d w = Threw e (buf', w')"
  obtains (here) x z where "slot_at buf first = Some x" "slot_at buf d = Some z"
      "move_assign T x w = Threw e w'" "buf' = buf"
  | (later) x z w1 where "slot_at buf first = Some x" "slot_at buf d = Some z"
      "move_assign T x w = Returned (x, moved_from T x) w1"
      "move_n T (buf[first := Some (moved_from T x), d := Some x]) (Suc first) n (Suc d) w1
         = Threw e (buf', w')"
proof -
  from assms obtain x z where xz: "slot_at buf first = Some x" "slot_at buf d = Some z"
    by (auto split: option.splits)
  show thesis
  proof (cases "move_assign T x w")
    case (Returned p w1)
    then have p: "p = (x, moved_from T x)"
      using move_assign_Returned[of T x w "fst p" "snd p" w1] by (cases p) simp
    from assms xz Returned p
    have "move_n T (buf[first := Some (moved_from T x), d := Some x]) (Suc first) n (Suc d) w1
            = Threw e (buf', w')" by simp
    with xz Returned p show thesis by (intro later) auto
  next
    case (Threw e1 w1)
    with assms xz show thesis by (intro here) auto
  next
    case Undefined
    then show thesis by simp
  qed
qed

lemma occupied_update2_Some:
  "slot_at buf i = Some x \<Longrightarrow> slot_at buf j = Some z \<Longrightarrow>
     occupied (buf[i := Some a, j := Some b]) = occupied buf"
  by (auto simp: occupied_def slot_at_def list_eq_iff_nth_eq nth_list_update split: if_splits)

lemma mvn_Returned_occupied:
  "move_n T buf first n d w = Returned () (buf', w') \<Longrightarrow>
     length buf' = length buf \<and> occupied buf' = occupied buf"
proof (induction n arbitrary: buf first d w)
  case 0
  then show ?case by simp
next
  case (Suc n)
  from Suc.prems show ?case
    by (elim mvn_Suc_Returned) (auto dest!: Suc.IH simp: occupied_update2_Some)
qed

lemma mvn_Threw_occupied:
  "move_n T buf first n d w = Threw e (buf', w') \<Longrightarrow>
     length buf' = length buf \<and> occupied buf' = occupied buf"
proof (induction n arbitrary: buf first d w)
  case 0
  then show ?case by simp
next
  case (Suc n)
  from Suc.prems show ?case
    by (elim mvn_Suc_Threw) (auto dest!: Suc.IH simp: occupied_update2_Some)
qed

lemma mvn_Returned_tally:
  "move_n T buf first n d w = Returned () (buf', w') \<Longrightarrow>
     tally w' = (tally w)(MoveAssigned := tally w MoveAssigned + n)"
proof (induction n arbitrary: buf first d w)
  case 0
  then show ?case by simp
next
  case (Suc n)
  from Suc.prems show ?case
    by (elim mvn_Suc_Returned) (auto dest!: Suc.IH move_assign_Returned simp: fun_eq_iff)
qed

text \<open>Moving the elements after position \<open>d\<close> one slot to the left.\<close>

lemma mvn_Returned_nth:
  "move_n T buf (Suc d) n d w = Returned () (buf', w') \<Longrightarrow> k < length buf \<Longrightarrow>
     buf' ! k = (if d \<le> k \<and> k < d + n then buf ! Suc k
                 else if k = d + n \<and> 0 < n then map_option (moved_from T) (buf ! k)
                 else buf ! k)"
proof (induction n arbitrary: buf d w)
  case 0
  then show ?case by auto
next
  case (Suc n)
  from Suc.prems(1) show ?case
  proof (elim mvn_Suc_Returned)
    fix x z w1
    assume a: "slot_at buf (Suc d) = Some x" "slot_at buf d = Some z"
      and rec: "move_n T (buf[Suc d := Some (moved_from T x), d := Some x]) (Suc (Suc d)) n (Suc d) w1
                  = Returned () (buf', w')"
    let ?b = "buf[Suc d := Some (moved_from T x), d := Some x]"
    have "buf' ! k = (if Suc d \<le> k \<and> k < Suc d + n then ?b ! Suc k
                 else if k = Suc d + n \<and> 0 < n then map_option (moved_from T) (?b ! k)
                 else ?b ! k)"
      using Suc.IH[OF rec] Suc.prems(2) by simp
    then show ?thesis
      using slot_at_Some_length[OF a(1)] slot_at_Some_length[OF a(2)] Suc.prems(2)
      by (auto simp: nth_list_update)
  qed
qed

subsection \<open>The shifting loop of the in-place insertion\<close>

lemma shr_done: "m \<le> index \<Longrightarrow> shift_right T buf m index w = Returned () (buf, w)"
  by (cases m) auto

lemma shr_Suc_Returned:
  assumes "shift_right T buf (Suc i) index w = Returned () s" "index \<le> i"
  obtains x z w1 where "slot_at buf i = Some x" "slot_at buf (Suc i) = Some z"
    "move_assign T x w = Returned (x, moved_from T x) w1"
    "shift_right T (buf[i := Some (moved_from T x), Suc i := Some x]) i index w1 = Returned () s"
proof -
  from assms obtain x z where xz: "slot_at buf i = Some x" "slot_at buf (Suc i) = Some z"
    by (auto split: option.splits)
  show thesis
  proof (cases "move_assign T x w")
    case (Returned p w1)
    then have p: "p = (x, moved_from T x)"
      using move_assign_Returned[of T x w "fst p" "snd p" w1] by (cases p) simp
    from assms xz Returned p
    have "shift_right T (buf[i := Some (moved_from T x), Suc i := Some x]) i index w1
            = Returned () s" by simp
    with xz Returned p that show thesis by simp
  next
    case (Threw e w1)
    with assms xz show thesis by simp
  next
    case Undefined
    then show thesis by simp
  qed
qed

lemma shr_Suc_Threw:
  assumes "shift_right T buf (Suc i) index w = Threw e (buf', w')" "index \<le> i"
  obtains (here) x z where "slot_at buf i = Some x" "slot_at buf (Suc i) = Some z"
      "move_assign T x w = Threw e w'" "buf' = buf"
  | (later) x z w1 where "slot_at buf i = Some x" "slot_at buf (Suc i) = Some z"
      "move_assign T x w = Returned (x, moved_from T x) w1"
      "shift_right T (buf[i := Some (moved_from T x), Suc i := Some x]) i index w1
         = Threw e (buf', w')"
proof -
  from assms obtain x z where xz: "slot_at buf i = Some x" "slot_at buf (Suc i) = Some z"
    by (auto split: option.splits)
  show thesis
  proof (cases "move_assign T x w")
    case (Returned p w1)
    then have p: "p = (x, moved_from T x)"
      using move_assign_Returned[of T x w "fst p" "snd p" w1] by (cases p) simp
    from assms xz Returned p
    have "shift_right T (buf[i := Some (moved_from T x), Suc i := Some x]) i index w1
            = Threw e (buf', w')" by simp
    with xz Returned p show thesis by (intro later) auto
  next
    case (Threw e1 w1)
    with assms xz show thesis by (intro here) auto
  next
    case Undefined
    then show thesis by simp
  qed
qed

lemma shr_Returned_occupied:
  "shift_right T buf m index w = Returned () (buf', w') \<Longrightarrow>
     length buf' = length buf \<and> occupied buf' = occupied buf"
proof (induction m arbitrary: buf w)
  case 0
  then show ?case by simp
next
  case (Suc i)
  show ?case
  proof (cases "index \<le> i")
    case True
    from Suc.prems True show ?thesis
      by (elim shr_Suc_Returned) (auto dest!: Suc.IH simp: occupied_update2_Some)
  next
    case False
    with Suc.prems show ?thesis by simp
  qed
qed

lemma shr_Threw_occupied:
  "shift_right T buf m index w = Threw e (buf', w') \<Longrightarrow>
     length buf' = length buf \<and> occupied buf' = occupied buf"
proof (induction m arbitrary: buf w)
  case 0
  then show ?case by simp
next
  case (Suc i)
  show ?case
  proof (cases "index \<le> i")
    case True
    from Suc.prems True show ?thesis
      by (elim shr_Suc_Threw) (auto dest!: Suc.IH simp: occupied_update2_Some)
  next
    case False
    with Suc.prems show ?thesis by simp
  qed
qed

lemma shr_Returned_tally:
  "shift_right T buf m index w = Returned () (buf', w') \<Longrightarrow>
     tally w' = (tally w)(MoveAssigned := tally w MoveAssigned + (m - index))"
proof (induction m arbitrary: buf w)
  case 0
  then show ?case by simp
next
  case (Suc i)
  show ?case
  proof (cases "index \<le> i")
    case True
    from Suc.prems True show ?thesis
      by (elim shr_Suc_Returned)
         (auto dest!: Suc.IH move_assign_Returned simp: fun_eq_iff Suc_diff_le)
  next
    case False
    with Suc.prems show ?thesis by simp
  qed
qed

lemma shr_Returned_nth:
  "shift_right T buf m index w = Returned () (buf', w') \<Longrightarrow> k < length buf \<Longrightarrow>
     buf' ! k = (if index < k \<and> k \<le> m then buf ! (k - 1)
                 else if k = index \<and> index < m then map_option (moved_from T) (buf ! k)
                 else buf ! k)"
proof (induction m arbitrary: buf w)
  case 0
  then show ?case by auto
next
  case (Suc i)
  show ?case
  proof (cases "index \<le> i")
    case False
    with Suc.prems show ?thesis by auto
  next
    case True
    from Suc.prems(1) True show ?thesis
    proof (elim shr_Suc_Returned)
      fix x z w1
      assume a: "slot_at buf i = Some x" "slot_at buf (Suc i) = Some z"
        and rec: "shift_right T (buf[i := Some (moved_from T x), Suc i := Some x]) i index w1
                    = Returned () (buf', w')"
      let ?b = "buf[i := Some (moved_from T x), Suc i := Some x]"
      have "buf' ! k = (if index < k \<and> k \<le> i then ?b ! (k - 1)
                 else if k = index \<and> index < i then map_option (moved_from T) (?b ! k)
                 else ?b ! k)"
        using Suc.IH[OF rec] Suc.prems(2) by simp
      then show ?thesis
        using slot_at_Some_length[OF a(1)] slot_at_Some_length[OF a(2)] Suc.prems(2) True
        by (auto simp: nth_list_update)
    qed
  qed
qed

section \<open>Operations that keep the capacity\<close>

lemma Resize_keeps_Capacity:
  assumes "state_of (Resize T n v w) = Some (v', w')" "n < vsize v \<or> n \<le> Capacity v"
  shows "Capacity v' = Capacity v"
proof (cases "n < vsize v")
  case True
  with assms(1) show ?thesis
    by (auto simp: Resize_def split: prod.splits)
next
  case False
  with assms(2) have le: "n \<le> Capacity v" by simp
  with False assms(1) show ?thesis
    by (auto simp: Resize_def split: outcome.splits)
qed

lemma PopBack_keeps_Capacity:
  "state_of (PopBack v w) = Some (v', w') \<Longrightarrow> Capacity v' = Capacity v"
  by (auto simp: PopBack_def destroy_at_def split: if_splits)

lemma Erase_keeps_Capacity:
  "state_of (Erase T index v w) = Some (v', w') \<Longrightarrow> Capacity v' = Capacity v"
  by (auto simp: Erase_def destroy_at_def split: if_splits outcome.splits)

lemma EmplaceBack_spare_keeps_Capacity:
  "state_of (EmplaceBack T args v w) = Some (v', w') \<Longrightarrow> vsize v \<noteq> Capacity v \<Longrightarrow>
     Capacity v' = Capacity v"
  by (auto simp: EmplaceBack_def split: outcome.splits option.splits)

lemma EmplaceWithoutRealloc_keeps_Capacity:
  "state_of (EmplaceWithoutRealloc T index args v w) = Some (v', w') \<Longrightarrow>
     Capacity v' = Capacity v"
  unfolding EmplaceWithoutRealloc_def Let_def
  by (auto split: outcome.splits option.splits if_splits prod.splits)

lemma Emplace_spare_keeps_Capacity:
  "state_of (Emplace T index args v w) = Some (v', w') \<Longrightarrow> vsize v \<noteq> Capacity v \<Longrightarrow>
     Capacity v' = Capacity v"
  by (simp add: Emplace_def EmplaceWithoutRealloc_keeps_Capacity)

lemma assign_copy_fits_keeps_Capacity:
  assumes "state_of (operator_assign_copy T this rhs st w) = Some (st', w')"
    "vsize (st rhs) \<le> Capacity (st this)"
  shows "Capacity (st' this) = Capacity (st this)"
  using assms unfolding operator_assign_copy_def
  by (auto split: outcome.splits if_splits prod.splits)

lemma Threw_keeps_Capacity_EmplaceBack:
  "EmplaceBack T args v w = Threw e (v', w') \<Longrightarrow> Capacity v' = Capacity v"
  unfolding EmplaceBack_def Let_def
  by (auto split: outcome.splits option.splits if_splits prod.splits)

section \<open>Erase\<close>

lemma prefix_constructed_length:
  "prefix_constructed v \<Longrightarrow> vsize v \<le> length (buffer (data v))"
  by (simp add: prefix_constructed_def)

lemma elements_length: "prefix_constructed v \<Longrightarrow> length (elements v) = vsize v"
  by (simp add: elements_def prefix_constructed_def)

lemma Erase_Returned:
  assumes "Erase T index v w = Returned r (v', w')"
  obtains b w1 where "index < vsize v"
    "move_n T (buffer (data v)) (Suc index) (vsize v - Suc index) index w = Returned () (b, w1)"
    "v' = (with_buffer v (b[vsize v - 1 := None]))\<lparr>vsize := vsize v - 1\<rparr>"
    "w' = count Destroyed 1 w1" "r = index"
  using assms unfolding Erase_def std_move_def destroy_at_def
  by (auto split: if_splits outcome.splits)

lemma Erase_elements:
  assumes pc: "prefix_constructed v"
    and ret: "Erase T index v w = Returned r (v', w')"
  shows "elements v' = take index (elements v) @ drop (Suc index) (elements v)"
proof -
  from ret obtain b w1 where lt: "index < vsize v"
    and mv: "move_n T (buffer (data v)) (Suc index) (vsize v - Suc index) index w = Returned () (b, w1)"
    and v': "v' = (with_buffer v (b[vsize v - 1 := None]))\<lparr>vsize := vsize v - 1\<rparr>"
    by (rule Erase_Returned)
  let ?buf = "buffer (data v)" and ?n = "vsize v"
  from pc have len: "?n \<le> length ?buf" by (rule prefix_constructed_length)
  from mvn_Returned_occupied[OF mv] have lb: "length b = length ?buf" by simp
  have el: "elements v' = take (?n - 1) b"
    by (simp add: v' elements_def)
  show ?thesis
  proof (rule nth_equalityI)
    show "length (elements v') = length (take index (elements v) @ drop (Suc index) (elements v))"
      unfolding el using len lb lt by (simp add: elements_def)
  next
    fix k
    assume "k < length (elements v')"
    then have k: "k < ?n - 1" using el by simp
    then have kb: "k < length ?buf" using len by simp
    have "b ! k = (if index \<le> k then ?buf ! Suc k else ?buf ! k)"
      using mvn_Returned_nth[OF mv kb] k lt by auto
    then show "elements v' ! k = (take index (elements v) @ drop (Suc index) (elements v)) ! k"
      unfolding el using k lt len by (auto simp: elements_def nth_append)
  qed
qed



section \<open>Emplace and Insert\<close>

lemma construct_at_Returned:
  "construct_at T dst j args w = Returned () (dst', w') \<Longrightarrow>
     j < length dst \<and> dst' = dst[j := Some (arg_value args)] \<and>
     construct_from T args w = Returned (arg_value args) w'"
  unfolding construct_at_def
  by (auto split: if_splits outcome.splits dest: construct_from_Returned)

lemma construct_at_Threw:
  "construct_at T dst j args w = Threw e (dst', w') \<Longrightarrow> dst' = dst"
  unfolding construct_at_def
  by (auto split: if_splits outcome.splits)

lemma ucn_relocates:
  assumes "uninitialized_copy_n src i n dst j w = Returned () (src', dst', w')"
  shows "length dst' = length dst \<and> length src' = length src \<and>
         (\<forall>k<length dst. dst' ! k = (if j \<le> k \<and> k < j + n then slot_at src (i + k - j) else dst ! k)) \<and>
         (\<forall>k<length src. \<not> (i \<le> k \<and> k < i + n) \<longrightarrow> src' ! k = src ! k)"
  using ucn_Returned_state[OF assms] ucn_Returned_nth[OF assms] by simp

lemma umn_relocates:
  assumes "uninitialized_move_n T src i n dst j w = Returned () (src', dst', w')"
  shows "length dst' = length dst \<and> length src' = length src \<and>
         (\<forall>k<length dst. dst' ! k = (if j \<le> k \<and> k < j + n then slot_at src (i + k - j) else dst ! k)) \<and>
         (\<forall>k<length src. \<not> (i \<le> k \<and> k < i + n) \<longrightarrow> src' ! k = src ! k)"
  using umn_Returned_state[OF assms] umn_Returned_nth[OF assms] umn_Returned_src_nth[OF assms]
  by simp

lemma insert_by_relocation:
  assumes "n \<le> length buf" "index \<le> n" "n < length new"
    and "length mid = length new" "length olds = length buf"
    and n1: "\<forall>k<length new. mid ! k = (if 0 \<le> k \<and> k < 0 + index then slot_at buf (0 + k - 0) else None)"
    and n2: "\<forall>k<length new. new ! k =
               (if index + 1 \<le> k \<and> k < index + 1 + (n - index) then slot_at olds (index + k - (index + 1))
                else (mid[index := Some y]) ! k)"
    and o1: "\<forall>m<length buf. \<not> (0 \<le> m \<and> m < 0 + index) \<longrightarrow> olds ! m = buf ! m"
  shows "take (Suc n) new = take index (take n buf) @ [Some y] @ drop index (take n buf)"
proof (rule nth_equalityI)
  show "length (take (Suc n) new) = length (take index (take n buf) @ [Some y] @ drop index (take n buf))"
    using assms(1-3) by simp
next
  fix k
  assume "k < length (take (Suc n) new)"
  then have k: "k \<le> n" "k < length new" using assms(3) by simp_all
  consider "k < index" | "k = index" | "index < k" by linarith
  then show "take (Suc n) new ! k = (take index (take n buf) @ [Some y] @ drop index (take n buf)) ! k"
  proof cases
    case 1
    with k assms(1-5) n1 n2 show ?thesis
      by (simp add: nth_append slot_at_def)
  next
    case 2
    with k assms(1-5) n1 n2 show ?thesis
      by (simp add: nth_append)
  next
    case 3
    then have "index + k - (index + 1) = k - 1" "index \<le> k - 1" "k - 1 < length buf" "k - 1 < n"
      using k assms(1) by simp_all
    with 3 k assms(1-5) n2 o1 show ?thesis
      by (simp add: nth_append slot_at_def nth_Cons')
  qed
qed

lemma EmplaceWithRealloc_Returned_size_t:
  fixes v :: "'a Vector"
  assumes "EmplaceWithRealloc T index args v w = Returned r (v', w')"
  obtains new_data w1 old1 new1 w2 a new2 w3 old new w4 where
    "RawMemory_sized T (if vsize v = 0 then 1 else (vsize v * 2) mod size_t_range) w = Returned new_data w1"
    "index \<le> vsize v"
    "if nothrow_move_constructible T \<or> \<not> copy_constructible T
     then uninitialized_move_n T (buffer (data v)) 0 index (buffer new_data) 0 w1
            = Returned () (old1, new1, w2)
     else uninitialized_copy_n (buffer (data v)) 0 index (buffer new_data) 0 w1
            = Returned () (old1, new1, w2)"
    "read_args old1 args = Some a"
    "construct_at T new1 index a w2 = Returned () (new2, w3)"
    "if nothrow_move_constructible T \<or> \<not> copy_constructible T
     then uninitialized_move_n T (moved_out T old1 args) index (vsize v - index) new2 (index + 1) w3
            = Returned () (old, new, w4)
     else uninitialized_copy_n (moved_out T old1 args) index (vsize v - index) new2 (index + 1) w3
            = Returned () (old, new, w4)"
    "v' = \<lparr>data = new_data\<lparr>buffer := new\<rparr>, vsize = vsize v + 1\<rparr>"
    "w' = RawMemory_release ((data v)\<lparr>buffer := fst (destroy_n old 0 (vsize v) w4)\<rparr>)
            (count Destroyed (vsize v) w4)"
    "r = index"
proof -
  let ?nc = "if vsize v = 0 then 1 else (vsize v * 2) mod size_t_range"
  from assms obtain new_data :: "'a RawMemory" and w1 where
    alloc: "RawMemory_sized T ?nc w = Returned new_data w1"
    unfolding EmplaceWithRealloc_def Let_def
    by (cases "RawMemory_sized T ?nc w :: ('a RawMemory, world) outcome") auto
  from assms alloc have le: "index \<le> vsize v"
    unfolding EmplaceWithRealloc_def Let_def
    by (auto split: if_splits)
  show thesis
  proof (cases "nothrow_move_constructible T \<or> \<not> copy_constructible T")
    case True
    from assms alloc le True obtain old1 new1 w2 where
      r1: "uninitialized_move_n T (buffer (data v)) 0 index (buffer new_data) 0 w1
             = Returned () (old1, new1, w2)"
      unfolding EmplaceWithRealloc_def Let_def
      by (cases "uninitialized_move_n T (buffer (data v)) 0 index (buffer new_data) 0 w1")
         (auto split: if_splits)
    from assms alloc le True r1 obtain a where
      ra: "read_args old1 args = Some a"
      unfolding EmplaceWithRealloc_def Let_def
      by (cases "read_args old1 args") (auto split: if_splits)
    from assms alloc le True r1 ra obtain new2 w3 where
      c: "construct_at T new1 index a w2 = Returned () (new2, w3)"
      unfolding EmplaceWithRealloc_def Let_def
      by (cases "construct_at T new1 index a w2") (auto split: if_splits)
    from assms alloc le True r1 ra c obtain old new w4 where
      r2: "uninitialized_move_n T (moved_out T old1 args) index (vsize v - index) new2 (index + 1) w3
             = Returned () (old, new, w4)"
      unfolding EmplaceWithRealloc_def Let_def
      by (cases "uninitialized_move_n T (moved_out T old1 args) index (vsize v - index) new2
                   (index + 1) w3")
         (auto split: if_splits)
    from assms alloc le True r1 ra c r2
    have "v' = \<lparr>data = new_data\<lparr>buffer := new\<rparr>, vsize = vsize v + 1\<rparr>"
      "w' = RawMemory_release ((data v)\<lparr>buffer := fst (destroy_n old 0 (vsize v) w4)\<rparr>)
            (count Destroyed (vsize v) w4)" "r = index"
      unfolding EmplaceWithRealloc_def Let_def
      by (auto split: if_splits simp: split_def)
    with alloc le True r1 ra c r2 show thesis by (intro that) auto
  next
    case False
    from assms alloc le False obtain old1 new1 w2 where
      r1: "uninitialized_copy_n (buffer (data v)) 0 index (buffer new_data) 0 w1
             = Returned () (old1, new1, w2)"
      unfolding EmplaceWithRealloc_def Let_def
      by (cases "uninitialized_copy_n (buffer (data v)) 0 index (buffer new_data) 0 w1")
         (auto split: if_splits)
    from assms alloc le False r1 obtain a where
      ra: "read_args old1 args = Some a"
      unfolding EmplaceWithRealloc_def Let_def
      by (cases "read_args old1 args") (auto split: if_splits)
    from assms alloc le False r1 ra obtain new2 w3 where
      c: "construct_at T new1 index a w2 = Returned () (new2, w3)"
      unfolding EmplaceWithRealloc_def Let_def
      by (cases "construct_at T new1 index a w2") (auto split: if_splits)
    from assms alloc le False r1 ra c obtain old new w4 where
      r2: "uninitialized_copy_n (moved_out T old1 args) index (vsize v - index) new2 (index + 1) w3
             = Returned () (old, new, w4)"
      unfolding EmplaceWithRealloc_def Let_def
      by (cases "uninitialized_copy_n (moved_out T old1 args) index (vsize v - index) new2
                   (index + 1) w3")
         (auto split: if_splits)
    from assms alloc le False r1 ra c r2
    have "v' = \<lparr>data = new_data\<lparr>buffer := new\<rparr>, vsize = vsize v + 1\<rparr>"
      "w' = RawMemory_release ((data v)\<lparr>buffer := fst (destroy_n old 0 (vsize v) w4)\<rparr>)
            (count Destroyed (vsize v) w4)" "r = index"
      unfolding EmplaceWithRealloc_def Let_def
      by (auto split: if_splits simp: split_def)
    with alloc le False r1 ra c r2 show thesis by (intro that) auto
  qed
qed

lemma relocation_Returned:
  assumes "if P then uninitialized_move_n T src i n dst j w = Returned () (src', dst', w')
           else uninitialized_copy_n src i n dst j w = Returned () (src', dst', w')"
  shows "length dst' = length dst \<and> length src' = length src \<and>
         (\<forall>k<length dst. dst' ! k = (if j \<le> k \<and> k < j + n then slot_at src (i + k - j) else dst ! k)) \<and>
         (\<forall>k<length src. \<not> (i \<le> k \<and> k < i + n) \<longrightarrow> src' ! k = src ! k)"
  using assms ucn_relocates[of src i n dst j w src' dst' w'] umn_relocates[of T src i n dst j w src' dst' w']
  by (cases P) simp_all

lemma relocation_Returned_src:
  assumes "if P then uninitialized_move_n T src i n dst j w = Returned () (src', dst', w')
           else uninitialized_copy_n src i n dst j w = Returned () (src', dst', w')"
  shows "\<forall>k<n. slot_at src (i + k) \<noteq> None \<and> j + k < length dst"
  using assms ucn_Returned_src[of src i n dst j w src' dst' w']
    umn_Returned_src[of T src i n dst j w src' dst' w']
  by (cases P) simp_all

lemma EmplaceWithRealloc_Returned:
  fixes v :: "'a Vector"
  assumes "EmplaceWithRealloc T index args v w = Returned r (v', w')"
  obtains new_data w1 old1 new1 w2 a new2 w3 old new w4 where
    "RawMemory_sized T (if vsize v = 0 then 1 else vsize v * 2) w = Returned new_data w1"
    "index \<le> vsize v"
    "if nothrow_move_constructible T \<or> \<not> copy_constructible T
     then uninitialized_move_n T (buffer (data v)) 0 index (buffer new_data) 0 w1
            = Returned () (old1, new1, w2)
     else uninitialized_copy_n (buffer (data v)) 0 index (buffer new_data) 0 w1
            = Returned () (old1, new1, w2)"
    "read_args old1 args = Some a"
    "construct_at T new1 index a w2 = Returned () (new2, w3)"
    "if nothrow_move_constructible T \<or> \<not> copy_constructible T
     then uninitialized_move_n T (moved_out T old1 args) index (vsize v - index) new2 (index + 1) w3
            = Returned () (old, new, w4)
     else uninitialized_copy_n (moved_out T old1 args) index (vsize v - index) new2 (index + 1) w3
            = Returned () (old, new, w4)"
    "v' = \<lparr>data = new_data\<lparr>buffer := new\<rparr>, vsize = vsize v + 1\<rparr>"
    "w' = RawMemory_release ((data v)\<lparr>buffer := fst (destroy_n old 0 (vsize v) w4)\<rparr>)
            (count Destroyed (vsize v) w4)"
    "r = index"
proof -
  let ?nc = "if vsize v = 0 then 1 else (vsize v * 2) mod size_t_range"
  from assms obtain new_data :: "'a RawMemory" and w1 old1 new1 w2 a new2 w3 old new w4 where
    alloc: "RawMemory_sized T ?nc w = Returned new_data w1"
    and le: "index \<le> vsize v"
    and r1: "if nothrow_move_constructible T \<or> \<not> copy_constructible T
     then uninitialized_move_n T (buffer (data v)) 0 index (buffer new_data) 0 w1
            = Returned () (old1, new1, w2)
     else uninitialized_copy_n (buffer (data v)) 0 index (buffer new_data) 0 w1
            = Returned () (old1, new1, w2)"
    and ra: "read_args old1 args = Some a"
    and c: "construct_at T new1 index a w2 = Returned () (new2, w3)"
    and r2: "if nothrow_move_constructible T \<or> \<not> copy_constructible T
     then uninitialized_move_n T (moved_out T old1 args) index (vsize v - index) new2 (index + 1) w3
            = Returned () (old, new, w4)
     else uninitialized_copy_n (moved_out T old1 args) index (vsize v - index) new2 (index + 1) w3
            = Returned () (old, new, w4)"
    and rest: "v' = \<lparr>data = new_data\<lparr>buffer := new\<rparr>, vsize = vsize v + 1\<rparr>"
    "w' = RawMemory_release ((data v)\<lparr>buffer := fst (destroy_n old 0 (vsize v) w4)\<rparr>)
            (count Destroyed (vsize v) w4)"
    "r = index"
    by (rule EmplaceWithRealloc_Returned_size_t)
  from relocation_Returned[OF r1] have l1: "length new1 = length (buffer new_data)" by simp
  from construct_at_Returned[OF c] have l2: "index < length new1" "length new2 = length new1"
    by simp_all
  have "vsize v < length new2"
  proof (cases "index = vsize v")
    case True
    with l2 show ?thesis by simp
  next
    case False
    with le have "vsize v - index - 1 < vsize v - index" by simp
    from relocation_Returned_src[OF r2, rule_format, OF this] le False show ?thesis by simp
  qed
  with l1 l2 RawMemory_sized_Returned[OF alloc] have "vsize v < block_slots T ?nc" by simp
  from new_capacity_fits[OF this] alloc
  have "RawMemory_sized T (if vsize v = 0 then 1 else vsize v * 2) w = Returned new_data w1"
    by simp
  from this le r1 ra c r2 rest show thesis by (rule that)
qed

lemma EmplaceWithRealloc_elements:
  assumes pc: "prefix_constructed v"
    and ret: "EmplaceWithRealloc T index (external args) v w = Returned r (v', w')"
  shows "vsize v' = vsize v + 1 \<and> r = index \<and> index \<le> vsize v \<and>
         elements v' = take index (elements v) @ [Some (arg_value args)] @ drop index (elements v)"
proof -
  let ?nc = "if vsize v = 0 then 1 else vsize v * 2"
  let ?P = "nothrow_move_constructible T \<or> \<not> copy_constructible T"
  let ?buf = "buffer (data v)"
  from ret obtain new_data w1 old1 new1 w2 a new2 w3 old new w4 where
    alloc: "RawMemory_sized T ?nc w = Returned new_data w1"
    and le: "index \<le> vsize v"
    and r1: "if ?P then uninitialized_move_n T ?buf 0 index (buffer new_data) 0 w1
                          = Returned () (old1, new1, w2)
             else uninitialized_copy_n ?buf 0 index (buffer new_data) 0 w1
                          = Returned () (old1, new1, w2)"
    and ra: "read_args old1 (external args) = Some a"
    and c0: "construct_at T new1 index a w2 = Returned () (new2, w3)"
    and r20: "if ?P then uninitialized_move_n T (moved_out T old1 (external args)) index
                           (vsize v - index) new2 (index + 1) w3 = Returned () (old, new, w4)
              else uninitialized_copy_n (moved_out T old1 (external args)) index
                           (vsize v - index) new2 (index + 1) w3 = Returned () (old, new, w4)"
    and v': "v' = \<lparr>data = new_data\<lparr>buffer := new\<rparr>, vsize = vsize v + 1\<rparr>"
    and r: "r = index"
    by (rule EmplaceWithRealloc_Returned)
  from ra have a: "a = args" by simp
  from c0 a have c: "construct_at T new1 index args w2 = Returned () (new2, w3)" by simp
  from r20 have r2: "if ?P then uninitialized_move_n T old1 index (vsize v - index) new2 (index + 1) w3
                          = Returned () (old, new, w4)
             else uninitialized_copy_n old1 index (vsize v - index) new2 (index + 1) w3
                          = Returned () (old, new, w4)"
    by (auto split: if_splits)
  from RawMemory_sized_Returned[OF alloc]
  have nd: "buffer new_data = replicate (block_slots T ?nc) None" by simp
  note f1 = relocation_Returned[OF r1]
  note f2 = relocation_Returned[OF r2]
  from construct_at_Returned[OF c] have n2: "new2 = new1[index := Some (arg_value args)]"
    and i1: "index < length new1" by simp_all
  have lnew: "length new = length new1" using f2 n2 by simp
  from pc have len: "vsize v \<le> length ?buf" by (rule prefix_constructed_length)
  have room: "vsize v < length new"
  proof (cases "index = vsize v")
    case True
    with i1 lnew show ?thesis by simp
  next
    case False
    with le have "vsize v - index - 1 < vsize v - index" by simp
    from relocation_Returned_src[OF r2, rule_format, OF this] le False f2 n2 lnew
    show ?thesis by simp
  qed
  have "take (Suc (vsize v)) new =
          take index (take (vsize v) ?buf) @ [Some (arg_value args)] @ drop index (take (vsize v) ?buf)"
  proof (rule insert_by_relocation[where mid = new1 and olds = old1])
    show "vsize v \<le> length ?buf" by (rule len)
    show "index \<le> vsize v" by (rule le)
    show "vsize v < length new" by (rule room)
    show "length new1 = length new" using lnew by simp
    show "length old1 = length ?buf" using f1 by simp
    show "\<forall>k<length new. new1 ! k = (if 0 \<le> k \<and> k < 0 + index then slot_at ?buf (0 + k - 0) else None)"
      using f1 lnew nd by simp
    show "\<forall>k<length new. new ! k =
            (if index + 1 \<le> k \<and> k < index + 1 + (vsize v - index)
             then slot_at old1 (index + k - (index + 1))
             else (new1[index := Some (arg_value args)]) ! k)"
      using f2 lnew n2 by simp
    show "\<forall>m<length ?buf. \<not> (0 \<le> m \<and> m < 0 + index) \<longrightarrow> old1 ! m = ?buf ! m"
      using f1 by simp
  qed
  then have "elements v' = take index (elements v) @ [Some (arg_value args)] @ drop index (elements v)"
    by (simp add: v' elements_def)
  with v' r le show ?thesis by simp
qed

lemma EmplaceWithRealloc_Capacity:
  fixes v :: "'a Vector"
  assumes "EmplaceWithRealloc T index args v w = Returned r (v', w')"
  shows "Capacity v' = (if vsize v = 0 then 1 else vsize v * 2)"
proof -
  from assms obtain new_data :: "'a RawMemory" and w1 new where
    "RawMemory_sized T (if vsize v = 0 then 1 else vsize v * 2) w = Returned new_data w1"
    "v' = \<lparr>data = new_data\<lparr>buffer := new\<rparr>, vsize = vsize v + 1\<rparr>"
    by (rule EmplaceWithRealloc_Returned)
  with RawMemory_sized_Returned[OF this(1)] show ?thesis
    by (simp add: Capacity_def)
qed

lemma EmplaceWithoutRealloc_Returned:
  assumes "EmplaceWithoutRealloc T index args v w = Returned r (v', w')"
  obtains (middle) a w1 x w2 b w3 z w4 where
      "read_args (buffer (data v)) args = Some a"
      "construct_from T a w = Returned (arg_value a) w1" "index < vsize v"
      "slot_at (moved_out T (buffer (data v)) args) (vsize v - 1) = Some x"
      "vsize v < length (buffer (data v))"
      "move_construct T x w1 = Returned (x, moved_from T x) w2"
      "shift_right T ((moved_out T (buffer (data v)) args)
                        [vsize v - 1 := Some (moved_from T x), vsize v := Some x])
         (vsize v - 1) index w2 = Returned () (b, w3)"
      "slot_at b index = Some z"
      "move_assign T (arg_value a) w3
         = Returned (arg_value a, moved_from T (arg_value a)) w4"
      "v' = (with_buffer v (b[index := Some (arg_value a)]))\<lparr>vsize := vsize v + 1\<rparr>"
      "w' = destroy_temp w4" "r = index"
  | (at_end) a w1 b w2 where
      "read_args (buffer (data v)) args = Some a"
      "construct_from T a w = Returned (arg_value a) w1" "\<not> index < vsize v"
      "construct_at T (moved_out T (buffer (data v)) args) index (MoveOf (arg_value a)) w1
         = Returned () (b, w2)"
      "v' = (with_buffer v b)\<lparr>vsize := vsize v + 1\<rparr>"
      "w' = destroy_temp w2" "r = index"
proof -
  let ?buf = "moved_out T (buffer (data v)) args"
  from assms obtain a where ra: "read_args (buffer (data v)) args = Some a"
    unfolding EmplaceWithoutRealloc_def
    by (cases "read_args (buffer (data v)) args") auto
  from assms ra obtain temp w1 where cf: "construct_from T a w = Returned temp w1"
    unfolding EmplaceWithoutRealloc_def
    by (cases "construct_from T a w") auto
  from construct_from_Returned[OF cf] have temp: "temp = arg_value a" by simp
  show thesis
  proof (cases "index < vsize v")
    case False
    from assms ra cf temp False obtain b w2 where
      c: "construct_at T ?buf index (MoveOf (arg_value a)) w1 = Returned () (b, w2)"
      unfolding EmplaceWithoutRealloc_def Let_def
      by (cases "construct_at T ?buf index (MoveOf (arg_value a)) w1") auto
    from assms ra cf temp False c
    have "v' = (with_buffer v b)\<lparr>vsize := vsize v + 1\<rparr>" "w' = destroy_temp w2" "r = index"
      unfolding EmplaceWithoutRealloc_def Let_def by auto
    with ra cf temp False c show thesis by (intro at_end) auto
  next
    case True
    from assms ra cf temp True obtain x where
      x: "slot_at ?buf (vsize v - 1) = Some x" and room: "vsize v < length (buffer (data v))"
      unfolding EmplaceWithoutRealloc_def Let_def
      by (cases "slot_at ?buf (vsize v - 1)") (auto split: if_splits)
    from assms ra cf temp True x room obtain p w2 where
      mc0: "move_construct T x w1 = Returned p w2"
      unfolding EmplaceWithoutRealloc_def Let_def
      by (cases "move_construct T x w1") auto
    then have p: "p = (x, moved_from T x)"
      using move_construct_Returned[of T x w1 "fst p" "snd p" w2] by (cases p) simp
    let ?b0 = "?buf[vsize v - 1 := Some (moved_from T x), vsize v := Some x]"
    from assms ra cf temp True x room mc0 p obtain b w3 where
      sh: "shift_right T ?b0 (vsize v - 1) index w2 = Returned () (b, w3)"
      unfolding EmplaceWithoutRealloc_def Let_def
      by (cases "shift_right T ?b0 (vsize v - 1) index w2") auto
    from assms ra cf temp True x room mc0 p sh obtain z where
      z: "slot_at b index = Some z"
      unfolding EmplaceWithoutRealloc_def Let_def
      by (cases "slot_at b index") auto
    from assms ra cf temp True x room mc0 p sh z obtain q w4 where
      ma0: "move_assign T (arg_value a) w3 = Returned q w4"
      unfolding EmplaceWithoutRealloc_def Let_def
      by (cases "move_assign T (arg_value a) w3") auto
    then have q: "q = (arg_value a, moved_from T (arg_value a))"
      using move_assign_Returned[of T "arg_value a" w3 "fst q" "snd q" w4] by (cases q) simp
    from assms ra cf temp True x room mc0 p sh z ma0 q
    have "v' = (with_buffer v (b[index := Some (arg_value a)]))\<lparr>vsize := vsize v + 1\<rparr>"
      "w' = destroy_temp w4" "r = index"
      unfolding EmplaceWithoutRealloc_def Let_def by auto
    with ra cf temp True x room mc0 p sh z ma0 q show thesis by (intro middle) auto
  qed
qed

lemma EmplaceWithoutRealloc_elements:
  assumes pc: "prefix_constructed v" and le: "index \<le> vsize v"
    and ret: "EmplaceWithoutRealloc T index (external args) v w = Returned r (v', w')"
  shows "vsize v' = vsize v + 1 \<and> r = index \<and>
         elements v' = take index (elements v) @ [Some (arg_value args)] @ drop index (elements v)"
  using ret
proof (cases rule: EmplaceWithoutRealloc_Returned)
  case (at_end a w1 b w2)
  let ?buf = "buffer (data v)"
  from at_end(1) have a: "a = args" by simp
  from at_end(3) le have idx: "index = vsize v" by simp
  from construct_at_Returned[OF at_end(4)] a
  have b: "b = ?buf[index := Some (arg_value args)]" and room: "index < length ?buf" by simp_all
  have "take (Suc (vsize v)) b = take (vsize v) ?buf @ [Some (arg_value args)]"
    using room unfolding b idx by (simp add: take_Suc_conv_app_nth)
  then show ?thesis using at_end(5,7) idx by (simp add: elements_def)
next
  case (middle a w1 x w2 b w3 z w4)
  let ?buf = "buffer (data v)" and ?n = "vsize v" and ?y = "arg_value args"
  let ?b0 = "?buf[?n - 1 := Some (moved_from T x), ?n := Some x]"
  from middle(1) have a: "a = args" by simp
  note middle = middle(2-)[unfolded a moved_out_external]
  from slot_at_Some_length[OF middle(3)] have x: "?buf ! (?n - 1) = Some x" by simp
  from shr_Returned_occupied[OF middle(6)] have lb: "length b = length ?buf" by simp
  have el: "elements v' = take (Suc ?n) (b[index := Some ?y])"
    by (simp add: middle(9) elements_def)
  have "take (Suc ?n) (b[index := Some ?y]) = take index (take ?n ?buf) @ [Some ?y] @ drop index (take ?n ?buf)"
  proof (rule nth_equalityI)
    show "length (take (Suc ?n) (b[index := Some ?y])) =
          length (take index (take ?n ?buf) @ [Some ?y] @ drop index (take ?n ?buf))"
      using lb middle(2,4) by simp
  next
    fix k
    assume "k < length (take (Suc ?n) (b[index := Some ?y]))"
    then have k: "k \<le> ?n" using lb middle(4) by simp
    then have kb: "k < length ?b0" using middle(4) by simp
    note nth = shr_Returned_nth[OF middle(6) kb]
    consider "k < index" | "k = index" | "index < k" "k < ?n" | "k = ?n" using k by linarith
    then show "take (Suc ?n) (b[index := Some ?y]) ! k =
               (take index (take ?n ?buf) @ [Some ?y] @ drop index (take ?n ?buf)) ! k"
    proof cases
      case 1
      with nth k middle(2,4) lb show ?thesis
        by (simp add: nth_append nth_list_update)
    next
      case 2
      with k middle(2,4) lb show ?thesis
        by (simp add: nth_append)
    next
      case 3
      then have "k \<le> ?n - 1" "k - 1 < ?n - 1" "k - 1 \<noteq> ?n" "k - 1 < ?n" "index \<le> k - 1"
        by simp_all
      with 3 nth k middle(2,4) lb show ?thesis
        by (simp add: nth_append nth_list_update nth_Cons')
    next
      case 4
      then have "\<not> k \<le> ?n - 1" "k \<noteq> index" "index \<le> k - 1" "k - 1 < ?n"
        using middle(2) by simp_all
      with 4 nth k middle(2,4) lb x show ?thesis
        by (simp add: nth_append nth_list_update nth_Cons')
    qed
  qed
  with el middle(9,11) show ?thesis by (simp add: elements_def)
qed

lemma Emplace_elements:
  assumes pc: "prefix_constructed v" and le: "index \<le> vsize v"
    and ret: "Emplace T index (external args) v w = Returned r (v', w')"
  shows "vsize v' = vsize v + 1 \<and> r = index \<and>
         elements v' = take index (elements v) @ [Some (arg_value args)] @ drop index (elements v)"
proof (cases "vsize v = Capacity v")
  case True
  with ret have "EmplaceWithRealloc T index (external args) v w = Returned r (v', w')"
    by (simp add: Emplace_def)
  from EmplaceWithRealloc_elements[OF pc this] show ?thesis by simp
next
  case False
  with ret have "EmplaceWithoutRealloc T index (external args) v w = Returned r (v', w')"
    by (simp add: Emplace_def)
  from EmplaceWithoutRealloc_elements[OF pc le this] show ?thesis .
qed

lemma Emplace_result:
  assumes pc: "prefix_constructed v" and le: "index \<le> vsize v"
    and ret: "Emplace T index (external args) v w = Returned r (v', w')"
  shows "vsize v' = vsize v + 1 \<and> at v' index = Some (arg_value args) \<and>
         elements v' = take index (elements v) @ [Some (arg_value args)] @ drop index (elements v) \<and>
         r = index"
proof -
  let ?y = "arg_value args"
  from Emplace_elements[OF pc le ret]
  have sz: "vsize v' = vsize v + 1" and r: "r = index"
    and el: "elements v' = take index (elements v) @ [Some ?y] @ drop index (elements v)"
    by simp_all
  from el elements_length[OF pc] le have "length (elements v') = vsize v + 1" by simp
  then have room: "vsize v + 1 \<le> length (buffer (data v'))"
    by (simp add: elements_def sz)
  from el elements_length[OF pc] le have "elements v' ! index = Some ?y"
    by (simp add: nth_append)
  then have "buffer (data v') ! index = Some ?y"
    using le sz by (simp add: elements_def)
  then have "at v' index = Some ?y"
    using le sz room by (simp add: at_def slot_at_def)
  with sz r el show ?thesis by simp
qed

text \<open>
  A successful \<^verbatim>\<open>Emplace\<close> or \<^verbatim>\<open>Insert\<close> at index \<open>i \<le> n\<close> of a value that is not an
  element of the vector itself: the size becomes \<open>n + 1\<close>, reading index \<open>i\<close> gives the
  value, the elements before \<open>i\<close> stay and the elements formerly at \<open>[i, n)\<close> follow the
  new one in their order, on the reallocating path (size equal to the capacity) and on
  the in-place path.
\<close>

lemma Insert_places_outside_value:
  assumes "prefix_constructed v" and "index \<le> vsize v"
  shows "(\<forall>r v' w'. Emplace T index (external args) v w = Returned r (v', w') \<longrightarrow>
            vsize v' = vsize v + 1 \<and> at v' index = Some (arg_value args) \<and>
            elements v' = take index (elements v) @ [Some (arg_value args)] @ drop index (elements v) \<and>
            r = index) \<and>
         (\<forall>r v' w'. Insert_copy T index (Outside x) v w = Returned r (v', w') \<longrightarrow>
            vsize v' = vsize v + 1 \<and> at v' index = Some x \<and>
            elements v' = take index (elements v) @ [Some x] @ drop index (elements v) \<and>
            r = index) \<and>
         (\<forall>r v' w'. Insert_move T index (Outside x) v w = Returned r (v', w') \<longrightarrow>
            vsize v' = vsize v + 1 \<and> at v' index = Some x \<and>
            elements v' = take index (elements v) @ [Some x] @ drop index (elements v) \<and>
            r = index)"
proof -
  have e: "vsize v' = vsize v + 1 \<and> at v' index = Some (arg_value a) \<and>
           elements v' = take index (elements v) @ [Some (arg_value a)] @ drop index (elements v) \<and>
           r = index"
    if "Emplace T index (external a) v w = Returned r (v', w')" for a r v' w'
    using Emplace_result[OF assms that] .
  have 1: "\<forall>r v' w'. Emplace T index (external args) v w = Returned r (v', w') \<longrightarrow>
            vsize v' = vsize v + 1 \<and> at v' index = Some (arg_value args) \<and>
            elements v' = take index (elements v) @ [Some (arg_value args)] @ drop index (elements v) \<and>
            r = index"
    using e by blast
  have 2: "\<forall>r v' w'. Insert_copy T index (Outside x) v w = Returned r (v', w') \<longrightarrow>
            vsize v' = vsize v + 1 \<and> at v' index = Some x \<and>
            elements v' = take index (elements v) @ [Some x] @ drop index (elements v) \<and>
            r = index"
    using e[of "CopyOf x"] unfolding Insert_copy_def by simp
  have 3: "\<forall>r v' w'. Insert_move T index (Outside x) v w = Returned r (v', w') \<longrightarrow>
            vsize v' = vsize v + 1 \<and> at v' index = Some x \<and>
            elements v' = take index (elements v) @ [Some x] @ drop index (elements v) \<and>
            r = index"
    using e[of "MoveOf x"] unfolding Insert_move_def by simp
  from 1 2 3 show ?thesis by (intro conjI)
qed

section \<open>The relocation policy\<close>

lemma RawMemory_sized_tally:
  "RawMemory_sized T n w = Returned m w' \<Longrightarrow>
     tally w' = (tally w)(Allocated := tally w Allocated + (if n = 0 then 0 else 1))"
  by (auto simp: RawMemory_sized_def Allocate_def fun_eq_iff
           split: outcome.splits if_splits list.splits)

lemma tally_RawMemory_release:
  "tally (RawMemory_release m w) ev =
     (if ev = ReleasedLive then tally w ev + length (filter (\<lambda>s. s \<noteq> None) (buffer m))
      else tally w ev)"
  by (simp add: RawMemory_release_def)

lemma construct_from_tally:
  assumes "read_args own args = Some a" "construct_from T a w = Returned y w'"
  shows "tally w' Copied = tally w Copied + copies_of args"
    and "tally w' Moved = tally w Moved + moves_of args"
  using construct_from_Returned[OF assms(2)] read_args_kind[OF assms(1)] by (cases a; simp)+

lemma relocation_tally:
  assumes "(if P then uninitialized_move_n T src i n dst j w
            else uninitialized_copy_n src i n dst j w) = Returned () (src', dst', w')"
  shows "tally w' Moved = tally w Moved + (if P then n else 0)"
    and "tally w' Copied = tally w Copied + (if P then 0 else n)"
  using assms ucn_Returned_tally[of src i n dst j w src' dst' w']
    umn_Returned_tally[of T src i n dst j w src' dst' w']
  by (cases P; simp)+

lemma Reserve_Returned:
  fixes v :: "'a Vector"
  assumes "Reserve T n v w = Returned () (v', w')" "Capacity v < n"
  obtains new_data :: "'a RawMemory" and w1 old new w2 where
    "RawMemory_sized T n w = Returned new_data w1"
    "(if nothrow_move_constructible T \<or> \<not> copy_constructible T
      then uninitialized_move_n T (buffer (data v)) 0 (vsize v) (buffer new_data) 0 w1
      else uninitialized_copy_n (buffer (data v)) 0 (vsize v) (buffer new_data) 0 w1)
       = Returned () (old, new, w2)"
    "v' = \<lparr>data = new_data\<lparr>buffer := new\<rparr>, vsize = vsize v\<rparr>"
    "w' = RawMemory_release ((data v)\<lparr>buffer := fst (destroy_n old 0 (vsize v) w2)\<rparr>)
            (count Destroyed (vsize v) w2)"
proof -
  let ?reloc = "\<lambda>(m :: 'a RawMemory) w1.
      if nothrow_move_constructible T \<or> \<not> copy_constructible T
      then uninitialized_move_n T (buffer (data v)) 0 (vsize v) (buffer m) 0 w1
      else uninitialized_copy_n (buffer (data v)) 0 (vsize v) (buffer m) 0 w1"
  from assms obtain new_data :: "'a RawMemory" and w1 where
    alloc: "RawMemory_sized T n w = Returned new_data w1"
    unfolding Reserve_def
    by (cases "RawMemory_sized T n w :: ('a RawMemory, world) outcome") auto
  from assms alloc obtain old new w2 where
    r: "?reloc new_data w1 = Returned () (old, new, w2)"
    unfolding Reserve_def
    by (cases "?reloc new_data w1") (auto split: if_splits)
  from assms alloc r
  have "v' = \<lparr>data = new_data\<lparr>buffer := new\<rparr>, vsize = vsize v\<rparr>"
    "w' = RawMemory_release ((data v)\<lparr>buffer := fst (destroy_n old 0 (vsize v) w2)\<rparr>)
            (count Destroyed (vsize v) w2)"
    unfolding Reserve_def
    by (auto split: if_splits simp: split_def)
  with alloc r show thesis by (intro that) auto
qed

lemma EmplaceBack_growth_Returned:
  fixes v :: "'a Vector"
  assumes "EmplaceBack T args v w = Returned r (v', w')" "vsize v = Capacity v"
  obtains new_data :: "'a RawMemory" and w1 old new w2 a new' w3 where
    "RawMemory_sized T (if vsize v = 0 then 1 else vsize v * 2) w = Returned new_data w1"
    "(if nothrow_move_constructible T \<or> \<not> copy_constructible T
      then uninitialized_move_n T (buffer (data v)) 0 (vsize v) (buffer new_data) 0 w1
      else uninitialized_copy_n (buffer (data v)) 0 (vsize v) (buffer new_data) 0 w1)
       = Returned () (old, new, w2)"
    "read_args old args = Some a"
    "construct_at T new (vsize v) a w2 = Returned () (new', w3)"
    "v' = \<lparr>data = new_data\<lparr>buffer := new'\<rparr>, vsize = vsize v + 1\<rparr>"
    "w' = RawMemory_release
            ((data v)\<lparr>buffer := fst (destroy_n (moved_out T old args) 0 (vsize v) w3)\<rparr>)
            (count Destroyed (vsize v) w3)"
    "r = vsize v"
proof -
  let ?nc = "if vsize v = 0 then 1 else (vsize v * 2) mod size_t_range"
  let ?reloc = "\<lambda>(m :: 'a RawMemory) w1.
      if nothrow_move_constructible T \<or> \<not> copy_constructible T
      then uninitialized_move_n T (buffer (data v)) 0 (vsize v) (buffer m) 0 w1
      else uninitialized_copy_n (buffer (data v)) 0 (vsize v) (buffer m) 0 w1"
  from assms obtain new_data :: "'a RawMemory" and w1 where
    alloc: "RawMemory_sized T ?nc w = Returned new_data w1"
    unfolding EmplaceBack_def Let_def
    by (cases "RawMemory_sized T ?nc w :: ('a RawMemory, world) outcome") auto
  from assms alloc obtain old new w2 where
    r: "?reloc new_data w1 = Returned () (old, new, w2)"
    unfolding EmplaceBack_def Let_def
    by (cases "?reloc new_data w1") (auto split: if_splits)
  from assms alloc r obtain a where
    ra: "read_args old args = Some a"
    unfolding EmplaceBack_def Let_def
    by (cases "read_args old args") (auto split: if_splits)
  from assms alloc r ra obtain new' w3 where
    c: "construct_at T new (vsize v) a w2 = Returned () (new', w3)"
    unfolding EmplaceBack_def Let_def
    by (cases "construct_at T new (vsize v) a w2") (auto split: if_splits simp: split_def)
  from assms alloc r ra c
  have "v' = \<lparr>data = new_data\<lparr>buffer := new'\<rparr>, vsize = vsize v + 1\<rparr>"
    "w' = RawMemory_release
            ((data v)\<lparr>buffer := fst (destroy_n (moved_out T old args) 0 (vsize v) w3)\<rparr>)
            (count Destroyed (vsize v) w3)" "r = vsize v"
    unfolding EmplaceBack_def Let_def
    by (auto split: if_splits simp: split_def)
  note rest = this
  have "length new = length (buffer new_data)"
    using r ucn_relocates[of "buffer (data v)" 0 "vsize v" "buffer new_data" 0 w1 old new w2]
      umn_relocates[of T "buffer (data v)" 0 "vsize v" "buffer new_data" 0 w1 old new w2]
    by (auto split: if_splits)
  with construct_at_Returned[OF c] RawMemory_sized_Returned[OF alloc]
  have "vsize v < block_slots T ?nc" by simp
  from new_capacity_fits[OF this] alloc
  have "RawMemory_sized T (if vsize v = 0 then 1 else vsize v * 2) w = Returned new_data w1"
    by simp
  from this r ra c rest show thesis by (rule that)
qed

lemma Reserve_policy:
  assumes "Reserve T n v w = Returned () (v', w')" "Capacity v < n"
  shows "tally w' Moved = tally w Moved
           + (if nothrow_move_constructible T \<or> \<not> copy_constructible T then vsize v else 0)"
    and "tally w' Copied = tally w Copied
           + (if nothrow_move_constructible T \<or> \<not> copy_constructible T then 0 else vsize v)"
proof -
  from assms obtain new_data :: "'a RawMemory" and w1 old new w2 where
    alloc: "RawMemory_sized T n w = Returned new_data w1"
    and r: "(if nothrow_move_constructible T \<or> \<not> copy_constructible T
      then uninitialized_move_n T (buffer (data v)) 0 (vsize v) (buffer new_data) 0 w1
      else uninitialized_copy_n (buffer (data v)) 0 (vsize v) (buffer new_data) 0 w1)
       = Returned () (old, new, w2)"
    and w': "w' = RawMemory_release ((data v)\<lparr>buffer := fst (destroy_n old 0 (vsize v) w2)\<rparr>)
            (count Destroyed (vsize v) w2)"
    by (rule Reserve_Returned)
  from RawMemory_sized_tally[OF alloc]
  have a: "tally w1 Moved = tally w Moved" "tally w1 Copied = tally w Copied" by simp_all
  from relocation_tally[OF r] a w'
  show "tally w' Moved = tally w Moved
           + (if nothrow_move_constructible T \<or> \<not> copy_constructible T then vsize v else 0)"
    and "tally w' Copied = tally w Copied
           + (if nothrow_move_constructible T \<or> \<not> copy_constructible T then 0 else vsize v)"
    by (simp_all add: tally_RawMemory_release)
qed

lemma EmplaceBack_policy:
  assumes "EmplaceBack T args v w = Returned r (v', w')" "vsize v = Capacity v"
  shows "tally w' Moved = tally w Moved
           + (if nothrow_move_constructible T \<or> \<not> copy_constructible T then vsize v else 0)
           + moves_of args"
    and "tally w' Copied = tally w Copied
           + (if nothrow_move_constructible T \<or> \<not> copy_constructible T then 0 else vsize v)
           + copies_of args"
proof -
  from assms obtain new_data :: "'a RawMemory" and w1 old new w2 a0 new' w3 where
    alloc: "RawMemory_sized T (if vsize v = 0 then 1 else vsize v * 2) w = Returned new_data w1"
    and r: "(if nothrow_move_constructible T \<or> \<not> copy_constructible T
      then uninitialized_move_n T (buffer (data v)) 0 (vsize v) (buffer new_data) 0 w1
      else uninitialized_copy_n (buffer (data v)) 0 (vsize v) (buffer new_data) 0 w1)
       = Returned () (old, new, w2)"
    and ra: "read_args old args = Some a0"
    and c: "construct_at T new (vsize v) a0 w2 = Returned () (new', w3)"
    and w': "w' = RawMemory_release
            ((data v)\<lparr>buffer := fst (destroy_n (moved_out T old args) 0 (vsize v) w3)\<rparr>)
            (count Destroyed (vsize v) w3)"
    by (rule EmplaceBack_growth_Returned)
  from RawMemory_sized_tally[OF alloc]
  have a: "tally w1 Moved = tally w Moved" "tally w1 Copied = tally w Copied" by simp_all
  from construct_at_Returned[OF c]
  have cf: "construct_from T a0 w2 = Returned (arg_value a0) w3" by simp
  from relocation_tally[OF r] construct_from_tally[OF ra cf] a w'
  show "tally w' Moved = tally w Moved
           + (if nothrow_move_constructible T \<or> \<not> copy_constructible T then vsize v else 0)
           + moves_of args"
    and "tally w' Copied = tally w Copied
           + (if nothrow_move_constructible T \<or> \<not> copy_constructible T then 0 else vsize v)
           + copies_of args"
    by (simp_all add: tally_RawMemory_release)
qed

lemma EmplaceWithRealloc_policy:
  assumes "EmplaceWithRealloc T index args v w = Returned r (v', w')"
  shows "tally w' Moved = tally w Moved
           + (if nothrow_move_constructible T \<or> \<not> copy_constructible T then vsize v else 0)
           + moves_of args"
    and "tally w' Copied = tally w Copied
           + (if nothrow_move_constructible T \<or> \<not> copy_constructible T then 0 else vsize v)
           + copies_of args"
proof -
  let ?P = "nothrow_move_constructible T \<or> \<not> copy_constructible T"
  from assms obtain new_data :: "'a RawMemory" and w1 old1 new1 w2 a0 new2 w3 old new w4 where
    alloc: "RawMemory_sized T (if vsize v = 0 then 1 else vsize v * 2) w = Returned new_data w1"
    and le: "index \<le> vsize v"
    and r1: "if ?P then uninitialized_move_n T (buffer (data v)) 0 index (buffer new_data) 0 w1
                          = Returned () (old1, new1, w2)
             else uninitialized_copy_n (buffer (data v)) 0 index (buffer new_data) 0 w1
                          = Returned () (old1, new1, w2)"
    and ra: "read_args old1 args = Some a0"
    and c: "construct_at T new1 index a0 w2 = Returned () (new2, w3)"
    and r2: "if ?P then uninitialized_move_n T (moved_out T old1 args) index (vsize v - index)
                          new2 (index + 1) w3 = Returned () (old, new, w4)
             else uninitialized_copy_n (moved_out T old1 args) index (vsize v - index)
                          new2 (index + 1) w3 = Returned () (old, new, w4)"
    and w': "w' = RawMemory_release ((data v)\<lparr>buffer := fst (destroy_n old 0 (vsize v) w4)\<rparr>)
            (count Destroyed (vsize v) w4)"
    by (rule EmplaceWithRealloc_Returned)
  from r1 have r1': "(if ?P then uninitialized_move_n T (buffer (data v)) 0 index (buffer new_data) 0 w1
                      else uninitialized_copy_n (buffer (data v)) 0 index (buffer new_data) 0 w1)
                      = Returned () (old1, new1, w2)"
    by (cases ?P) simp_all
  from r2 have r2': "(if ?P then uninitialized_move_n T (moved_out T old1 args) index
                                   (vsize v - index) new2 (index + 1) w3
                      else uninitialized_copy_n (moved_out T old1 args) index
                                   (vsize v - index) new2 (index + 1) w3)
                      = Returned () (old, new, w4)"
    by (cases ?P) simp_all
  from RawMemory_sized_tally[OF alloc]
  have a: "tally w1 Moved = tally w Moved" "tally w1 Copied = tally w Copied" by simp_all
  from construct_at_Returned[OF c]
  have cf: "construct_from T a0 w2 = Returned (arg_value a0) w3" by simp
  from relocation_tally[OF r1'] relocation_tally[OF r2'] construct_from_tally[OF ra cf] a w' le
  show "tally w' Moved = tally w Moved + (if ?P then vsize v else 0) + moves_of args"
    and "tally w' Copied = tally w Copied + (if ?P then 0 else vsize v) + copies_of args"
    by (simp_all add: tally_RawMemory_release)
qed



section \<open>Copy assignment\<close>

lemma Vector_copy_Returned:
  fixes other :: "'a Vector"
  assumes "Vector_copy T other w = Returned tmp w'"
  obtains m :: "'a RawMemory" and w1 src' b where
    "RawMemory_sized T (vsize other) w = Returned m w1"
    "uninitialized_copy_n (buffer (data other)) 0 (vsize other) (buffer m) 0 w1
       = Returned () (src', b, w')"
    "tmp = \<lparr>data = m\<lparr>buffer := b\<rparr>, vsize = vsize other\<rparr>"
proof -
  from assms obtain m :: "'a RawMemory" and w1 where
    alloc: "RawMemory_sized T (vsize other) w = Returned m w1"
    unfolding Vector_copy_def
    by (cases "RawMemory_sized T (vsize other) w :: ('a RawMemory, world) outcome") auto
  from assms alloc obtain src' b w2 where
    c: "uninitialized_copy_n (buffer (data other)) 0 (vsize other) (buffer m) 0 w1
          = Returned () (src', b, w2)"
    unfolding Vector_copy_def
    by (cases "uninitialized_copy_n (buffer (data other)) 0 (vsize other) (buffer m) 0 w1") auto
  from assms alloc c have "tmp = \<lparr>data = m\<lparr>buffer := b\<rparr>, vsize = vsize other\<rparr>" "w' = w2"
    unfolding Vector_copy_def by auto
  with alloc c show thesis by (intro that) auto
qed

lemma Vector_copy_elements:
  assumes pc: "prefix_constructed other"
    and ret: "Vector_copy T other w = Returned tmp w'"
  shows "elements tmp = elements other" and "vsize tmp = vsize other"
    and "Capacity tmp = vsize other" and "length (buffer (data tmp)) = vsize other"
    and "tally w' = (tally w)(Allocated := tally w Allocated + (if vsize other = 0 then 0 else 1),
                              Copied := tally w Copied + vsize other)"
proof -
  from ret obtain m :: "'a RawMemory" and w1 src' b where
    alloc: "RawMemory_sized T (vsize other) w = Returned m w1"
    and c: "uninitialized_copy_n (buffer (data other)) 0 (vsize other) (buffer m) 0 w1
              = Returned () (src', b, w')"
    and tmp: "tmp = \<lparr>data = m\<lparr>buffer := b\<rparr>, vsize = vsize other\<rparr>"
    by (rule Vector_copy_Returned)
  let ?src = "buffer (data other)" and ?n = "vsize other"
  from RawMemory_sized_Returned[OF alloc]
  have m0: "capacity m = ?n" "buffer m = replicate (block_slots T ?n) None" by simp_all
  have "block_slots T ?n = ?n"
  proof (cases "?n = 0")
    case True
    then show ?thesis by simp
  next
    case False
    then have "?n - 1 < ?n" by simp
    from ucn_Returned_src[OF c this] m0 have "?n - 1 < block_slots T ?n" by simp
    with False block_slots_le[of T ?n] show ?thesis by linarith
  qed
  with m0 have m: "capacity m = ?n" "buffer m = replicate ?n None" by simp_all
  from ucn_Returned_state[OF c] m have lb: "length b = ?n" by simp
  from pc have len: "?n \<le> length ?src" by (rule prefix_constructed_length)
  have "take ?n b = take ?n ?src"
  proof (rule nth_equalityI)
    show "length (take ?n b) = length (take ?n ?src)" using lb len by simp
  next
    fix k
    assume "k < length (take ?n b)"
    then have k: "k < ?n" using lb by simp
    with ucn_Returned_nth[OF c, of k] m len show "take ?n b ! k = take ?n ?src ! k"
      by (simp add: slot_at_def)
  qed
  then show "elements tmp = elements other" by (simp add: tmp elements_def)
  show "vsize tmp = vsize other" by (simp add: tmp)
  show "Capacity tmp = vsize other" by (simp add: tmp Capacity_def m)
  show "length (buffer (data tmp)) = vsize other" by (simp add: tmp lb)
  show "tally w' = (tally w)(Allocated := tally w Allocated + (if vsize other = 0 then 0 else 1),
                              Copied := tally w Copied + vsize other)"
    using RawMemory_sized_tally[OF alloc] ucn_Returned_tally[OF c]
    by (auto simp: fun_eq_iff)
qed

lemma tally_Vector_destroy:
  "tally (Vector_destroy v w) ev =
     (if ev = Destroyed then tally w ev + vsize v
      else if ev = ReleasedLive
      then tally w ev + length (filter (\<lambda>s. s \<noteq> None)
                                 (fst (destroy_n (buffer (data v)) 0 (vsize v) w)))
      else tally w ev)"
  by (simp add: Vector_destroy_def split_def tally_RawMemory_release)

lemma assign_copy_grows_Threw:
  assumes "this \<noteq> rhs" "Capacity (st this) < vsize (st rhs)"
    and "operator_assign_copy T this rhs st w = Threw e (st', w')"
  shows "st' = st"
  using assms unfolding operator_assign_copy_def
  by (auto split: outcome.splits prod.splits)

lemma assign_copy_grows_Returned:
  assumes ne: "this \<noteq> rhs" and gt: "Capacity (st this) < vsize (st rhs)"
    and pc: "prefix_constructed (st rhs)"
    and ret: "operator_assign_copy T this rhs st w = Returned () (st', w')"
  shows "elements (st' this) = elements (st rhs) \<and> vsize (st' this) = vsize (st rhs) \<and>
         Capacity (st' this) = vsize (st rhs) \<and> (\<forall>p. p \<noteq> this \<longrightarrow> st' p = st p) \<and>
         tally w' Copied = tally w Copied + vsize (st rhs) \<and>
         tally w' Allocated = tally w Allocated + 1 \<and>
         tally w' CopyAssigned = tally w CopyAssigned \<and>
         tally w' Destroyed = tally w Destroyed + vsize (st this)"
proof -
  from ret ne gt obtain tmp w1 where
    cp: "Vector_copy T (st rhs) w = Returned tmp w1"
    unfolding operator_assign_copy_def
    by (cases "Vector_copy T (st rhs) w") auto
  from ret ne gt cp
  have st': "st' = st(this := fst (Swap (st this) tmp))"
    and w': "w' = Vector_destroy (snd (Swap (st this) tmp)) w1"
    unfolding operator_assign_copy_def by (auto simp: split_def)
  note f = Vector_copy_elements[OF pc cp]
  have sw: "fst (Swap (st this) tmp) = tmp" "vsize (snd (Swap (st this) tmp)) = vsize (st this)"
    by (simp_all add: Swap_def)
  from gt have pos: "vsize (st rhs) \<noteq> 0" by simp
  show ?thesis
    using f pos by (simp add: st' w' sw tally_Vector_destroy)
qed

lemma assign_copy_fits_Returned:
  assumes ne: "this \<noteq> rhs" and fits: "vsize (st rhs) \<le> Capacity (st this)"
    and ret: "operator_assign_copy T this rhs st w = Returned () (st', w')"
  obtains b1 w1 b2 where
    "copy_n (buffer (data (st rhs))) 0 (min (vsize (st this)) (vsize (st rhs)))
        (buffer (data (st this))) 0 w = Returned () (b1, w1)"
    "st' = st(this := (with_buffer (st this) b2)\<lparr>vsize := vsize (st rhs)\<rparr>)"
    "if vsize (st this) < vsize (st rhs)
     then \<exists>s. uninitialized_copy_n (buffer (data (st rhs))) (vsize (st this))
            (vsize (st rhs) - vsize (st this)) b1 (vsize (st this)) w1 = Returned () (s, b2, w')
     else destroy_n b1 (vsize (st rhs)) (vsize (st this) - vsize (st rhs)) w1 = (b2, w')"
proof -
  let ?a = "st this" and ?b = "st rhs"
  from ret ne fits obtain b1 w1 where
    cn: "copy_n (buffer (data ?b)) 0 (min (vsize ?a) (vsize ?b)) (buffer (data ?a)) 0 w
           = Returned () (b1, w1)"
    unfolding operator_assign_copy_def
    by (cases "copy_n (buffer (data ?b)) 0 (min (vsize ?a) (vsize ?b)) (buffer (data ?a)) 0 w")
       auto
  show thesis
  proof (cases "vsize ?a < vsize ?b")
    case True
    from ret ne fits cn True obtain s b2 w2 where
      u: "uninitialized_copy_n (buffer (data ?b)) (vsize ?a) (vsize ?b - vsize ?a) b1 (vsize ?a) w1
            = Returned () (s, b2, w2)"
      unfolding operator_assign_copy_def
      by (cases "uninitialized_copy_n (buffer (data ?b)) (vsize ?a) (vsize ?b - vsize ?a) b1
                   (vsize ?a) w1")
         (auto split: if_splits)
    from ret ne fits cn True u
    have "st' = st(this := (with_buffer ?a b2)\<lparr>vsize := vsize ?b\<rparr>)" "w' = w2"
      unfolding operator_assign_copy_def by (auto split: if_splits)
    with cn True u show thesis by (intro that[of b1 w1 b2]) auto
  next
    case False
    show thesis
    proof (cases "vsize ?b < vsize ?a")
      case True
      obtain b2 w2 where d: "destroy_n b1 (vsize ?b) (vsize ?a - vsize ?b) w1 = (b2, w2)"
        by (cases "destroy_n b1 (vsize ?b) (vsize ?a - vsize ?b) w1") auto
      from ret ne fits cn True False d
      have "st' = st(this := (with_buffer ?a b2)\<lparr>vsize := vsize ?b\<rparr>)" "w' = w2"
        unfolding operator_assign_copy_def by (auto split: if_splits)
      with cn False d show thesis by (intro that[of b1 w1 b2]) auto
    next
      case eq: False
      from ret ne fits cn eq False
      have "st' = st(this := (with_buffer ?a b1)\<lparr>vsize := vsize ?b\<rparr>)" "w' = w1"
        unfolding operator_assign_copy_def by (auto split: if_splits)
      with cn False eq show thesis by (intro that[of b1 w1 b1]) auto
    qed
  qed
qed

lemma destroy_n_eq:
  "destroy_n buf j n w = (b, w') \<Longrightarrow>
     length b = length buf \<and> w' = count Destroyed n w \<and>
     (\<forall>k<length buf. b ! k = (if j \<le> k \<and> k < j + n then None else buf ! k))"
  using destroy_n_length[of buf j n w] destroy_n_nth[of _ buf j n w] destroy_n_world[of buf j n w]
  by auto

lemma assign_copy_fits_elements:
  assumes ne: "this \<noteq> rhs" and fits: "vsize (st rhs) \<le> Capacity (st this)"
    and pa: "prefix_constructed (st this)" and pb: "prefix_constructed (st rhs)"
    and ret: "operator_assign_copy T this rhs st w = Returned () (st', w')"
  shows "elements (st' this) = elements (st rhs) \<and> vsize (st' this) = vsize (st rhs) \<and>
         Capacity (st' this) = Capacity (st this) \<and> (\<forall>p. p \<noteq> this \<longrightarrow> st' p = st p) \<and>
         tally w' Allocated = tally w Allocated \<and>
         tally w' CopyAssigned = tally w CopyAssigned + min (vsize (st this)) (vsize (st rhs)) \<and>
         tally w' Copied = tally w Copied + (vsize (st rhs) - vsize (st this)) \<and>
         tally w' Destroyed = tally w Destroyed + (vsize (st this) - vsize (st rhs))"
proof -
  let ?a = "st this" and ?b = "st rhs"
  let ?src = "buffer (data ?b)" and ?dst = "buffer (data ?a)"
  let ?sa = "vsize ?a" and ?sb = "vsize ?b"
  from ne fits ret obtain b1 w1 b2 where
    cn: "copy_n ?src 0 (min ?sa ?sb) ?dst 0 w = Returned () (b1, w1)"
    and st': "st' = st(this := (with_buffer ?a b2)\<lparr>vsize := ?sb\<rparr>)"
    and rest: "if ?sa < ?sb
      then \<exists>s. uninitialized_copy_n ?src ?sa (?sb - ?sa) b1 ?sa w1 = Returned () (s, b2, w')
      else destroy_n b1 ?sb (?sa - ?sb) w1 = (b2, w')"
    by (rule assign_copy_fits_Returned)
  from pb have lsrc: "?sb \<le> length ?src" by (rule prefix_constructed_length)
  from cpn_Returned_occupied[OF cn] have lb1: "length b1 = length ?dst" by simp
  have ldst: "?sb \<le> length ?dst"
  proof (cases "?sa < ?sb")
    case True
    with rest obtain s where
      u: "uninitialized_copy_n ?src ?sa (?sb - ?sa) b1 ?sa w1 = Returned () (s, b2, w')" by auto
    from True have "?sb - ?sa - 1 < ?sb - ?sa" by simp
    from ucn_Returned_src[OF u this] True lb1 have "?sb - 1 < length ?dst" by simp
    with True show ?thesis by linarith
  next
    case False
    with prefix_constructed_length[OF pa] show ?thesis by simp
  qed
  have b1: "b1 ! k = (if k < min ?sa ?sb then ?src ! k else ?dst ! k)" if "k < ?sb" for k
    using cpn_Returned_nth[OF cn, of k] that ldst lsrc by (simp add: slot_at_def)
  have t1: "tally w1 = (tally w)(CopyAssigned := tally w CopyAssigned + min ?sa ?sb)"
    using cpn_Returned_tally[OF cn] .
  have main: "length b2 = length ?dst \<and> (\<forall>k<?sb. b2 ! k = ?src ! k) \<and>
         tally w' Allocated = tally w Allocated \<and>
         tally w' CopyAssigned = tally w CopyAssigned + min ?sa ?sb \<and>
         tally w' Copied = tally w Copied + (?sb - ?sa) \<and>
         tally w' Destroyed = tally w Destroyed + (?sa - ?sb)"
  proof (cases "?sa < ?sb")
    case True
    with rest obtain s where
      u: "uninitialized_copy_n ?src ?sa (?sb - ?sa) b1 ?sa w1 = Returned () (s, b2, w')" by auto
    from ucn_Returned_state[OF u] lb1 have lb2: "length b2 = length ?dst" by simp
    have "b2 ! k = ?src ! k" if "k < ?sb" for k
      using ucn_Returned_nth[OF u, of k] that b1[OF that] True lb1 ldst lsrc
      by (auto simp: slot_at_def)
    with lb2 t1 ucn_Returned_tally[OF u] True show ?thesis by simp
  next
    case False
    with rest have d: "destroy_n b1 ?sb (?sa - ?sb) w1 = (b2, w')" by simp
    from destroy_n_eq[OF d] lb1 have lb2: "length b2 = length ?dst" by simp
    have "b2 ! k = ?src ! k" if "k < ?sb" for k
      using destroy_n_eq[OF d] that b1[OF that] False lb1 ldst by simp
    with lb2 t1 destroy_n_eq[OF d] False show ?thesis by simp
  qed
  have "take ?sb b2 = take ?sb ?src"
    using main ldst lsrc by (intro nth_equalityI) simp_all
  then have "elements (st' this) = elements ?b"
    by (simp add: st' elements_def)
  with main show ?thesis by (simp add: st')
qed



section \<open>The invariant is preserved\<close>

lemma take_occupied_iff:
  "n \<le> length buf \<Longrightarrow>
     take n (occupied buf) = replicate n True \<longleftrightarrow> (\<forall>k<n. buf ! k \<noteq> None)"
  by (auto simp: list_eq_iff_nth_eq)

lemma prefix_constructed_iff:
  "prefix_constructed v \<longleftrightarrow>
     length (buffer (data v)) \<le> capacity (data v) \<and> vsize v \<le> length (buffer (data v)) \<and>
     (\<forall>k<vsize v. buffer (data v) ! k \<noteq> None)"
  unfolding prefix_constructed_def
  by (auto simp: take_occupied_iff)

lemma occupied_split_iff:
  "n \<le> length buf \<Longrightarrow>
     occupied buf = replicate n True @ replicate (length buf - n) False \<longleftrightarrow>
     (\<forall>k<length buf. (buf ! k \<noteq> None) = (k < n))"
  by (auto simp: list_eq_iff_nth_eq nth_append)

lemma invariant_iff:
  "invariant v \<longleftrightarrow>
     length (buffer (data v)) \<le> capacity (data v) \<and> vsize v \<le> length (buffer (data v)) \<and>
     (\<forall>k<length (buffer (data v)). (buffer (data v) ! k \<noteq> None) = (k < vsize v))"
proof (cases "vsize v \<le> length (buffer (data v))")
  case True
  then show ?thesis
    unfolding invariant_def using occupied_split_iff[of "vsize v" "buffer (data v)"] by auto
next
  case False
  then show ?thesis by (auto simp: invariant_def)
qed

lemma invariant_prefix_constructed: "invariant v \<Longrightarrow> prefix_constructed v"
  by (auto simp: invariant_iff prefix_constructed_iff)

lemma occupied_eq_nth:
  "length b = length buf \<Longrightarrow> occupied b = occupied buf \<Longrightarrow> k < length buf \<Longrightarrow>
     (b ! k \<noteq> None) = (buf ! k \<noteq> None)"
  by (metis occupied_nth)

lemma same_shape_prefix_constructed:
  assumes "length b = length (buffer (data v))" "occupied b = occupied (buffer (data v))"
    and "prefix_constructed v"
  shows "prefix_constructed (with_buffer v b)"
  using assms by (simp add: prefix_constructed_def)

lemma same_shape_invariant:
  assumes "length b = length (buffer (data v))" "occupied b = occupied (buffer (data v))"
    and "invariant v"
  shows "invariant (with_buffer v b)"
  using assms by (simp add: invariant_def)

lemma ucn_Returned_fresh:
  assumes "uninitialized_copy_n src 0 n (replicate c None) 0 w = Returned () (src', new, w')"
  shows "length new = c \<and> n \<le> c \<and> (\<forall>k<c. (new ! k \<noteq> None) = (k < n))"
proof -
  from ucn_Returned_state[OF assms] have l: "length new = c" by simp
  have b: "n \<le> c"
  proof (cases n)
    case 0
    then show ?thesis by simp
  next
    case (Suc m)
    with ucn_Returned_src[OF assms, of m] show ?thesis by simp
  qed
  have "(new ! k \<noteq> None) = (k < n)" if "k < c" for k
    using ucn_Returned_nth[OF assms, of k] ucn_Returned_src[OF assms, of k] that by auto
  with l b show ?thesis by simp
qed

lemma umn_Returned_fresh:
  assumes "uninitialized_move_n T src 0 n (replicate c None) 0 w = Returned () (src', new, w')"
  shows "length new = c \<and> n \<le> c \<and> (\<forall>k<c. (new ! k \<noteq> None) = (k < n))"
proof -
  from umn_Returned_state[OF assms] have l: "length new = c" by simp
  have b: "n \<le> c"
  proof (cases n)
    case 0
    then show ?thesis by simp
  next
    case (Suc m)
    with umn_Returned_src[OF assms, of m] show ?thesis by simp
  qed
  have "(new ! k \<noteq> None) = (k < n)" if "k < c" for k
    using umn_Returned_nth[OF assms, of k] umn_Returned_src[OF assms, of k] that by auto
  with l b show ?thesis by simp
qed

lemma fresh_invariant:
  assumes "RawMemory_sized T c w = Returned m w1"
    and "length new = block_slots T c \<and> n \<le> block_slots T c \<and>
         (\<forall>k<block_slots T c. (new ! k \<noteq> None) = (k < n))"
  shows "invariant \<lparr>data = m\<lparr>buffer := new\<rparr>, vsize = n\<rparr>"
  using RawMemory_sized_Returned[OF assms(1)] assms(2) block_slots_le[of T c]
  by (simp add: invariant_iff)

lemma same_shape:
  assumes "length (buffer (data u)) = length (buffer (data v))"
    and "occupied (buffer (data u)) = occupied (buffer (data v))"
    and "capacity (data u) = capacity (data v)" and "vsize u = vsize v"
  shows "prefix_constructed u = prefix_constructed v" and "invariant u = invariant v"
  using assms by (simp_all add: prefix_constructed_def invariant_def)

lemma umn_Threw_shape:
  "uninitialized_move_n T src i n dst j w = Threw e (src', dst', w') \<Longrightarrow>
     length src' = length src \<and> occupied src' = occupied src"
  by (simp add: umn_Threw_state umn_Threw_occupied)

lemma umn_Returned_shape:
  "uninitialized_move_n T src i n dst j w = Returned () (src', dst', w') \<Longrightarrow>
     length src' = length src \<and> occupied src' = occupied src"
  by (simp add: umn_Returned_state umn_Returned_occupied)

lemma with_buffer_same [simp]: "with_buffer v (buffer (data v)) = v"
  by (simp add: with_buffer_def)

lemma Reserve_preserves:
  assumes "state_of (Reserve T n v w) = Some (v', w')" and "prefix_constructed v"
  shows "prefix_constructed v' \<and> (invariant v \<longrightarrow> invariant v')"
proof (cases "n \<le> Capacity v")
  case True
  with assms show ?thesis by (simp add: Reserve_def)
next
  case False
  have fresh: "invariant \<lparr>data = m\<lparr>buffer := new\<rparr>, vsize = vsize v\<rparr>"
    if "RawMemory_sized T n w = Returned m w1"
      and "uninitialized_move_n T (buffer (data v)) 0 (vsize v) (buffer m) 0 w1
             = Returned () (old, new, w2) \<or>
           uninitialized_copy_n (buffer (data v)) 0 (vsize v) (buffer m) 0 w1
             = Returned () (old, new, w2)"
    for m :: "'a RawMemory" and w1 old new w2
    using that RawMemory_sized_Returned[OF that(1)]
      fresh_invariant[OF that(1), of new "vsize v"]
      umn_Returned_fresh[of T "buffer (data v)" "vsize v" "block_slots T n" w1 old new w2]
      ucn_Returned_fresh[of "buffer (data v)" "vsize v" "block_slots T n" w1 old new w2]
    by auto
  have same_m: "prefix_constructed (with_buffer v old) \<and> (invariant v \<longrightarrow> invariant (with_buffer v old))"
    if "uninitialized_move_n T (buffer (data v)) 0 (vsize v) dst 0 w1 = Threw e (old, new, w2)"
    for dst w1 e old new w2
    using assms(2) umn_Threw_shape[OF that]
      same_shape_prefix_constructed[of old v] same_shape_invariant[of old v]
    by auto
  have same_c: "old = buffer (data v)"
    if "uninitialized_copy_n (buffer (data v)) 0 (vsize v) dst 0 w1 = Threw e (old, new, w2)"
    for dst w1 e old new w2
    using ucn_Threw_state[OF that] by simp
  from assms False show ?thesis
    unfolding Reserve_def
    by (auto split: if_splits outcome.splits prod.splits
        dest: fresh same_m same_c intro: invariant_prefix_constructed)
qed

lemma grow_by_one:
  assumes "length b = length (buffer (data v))" and "vsize v < length (buffer (data v))"
    and "\<forall>k<length (buffer (data v)). (b ! k \<noteq> None) = (buffer (data v) ! k \<noteq> None \<or> k = vsize v)"
    and "prefix_constructed v"
  shows "prefix_constructed ((with_buffer v b)\<lparr>vsize := vsize v + 1\<rparr>) \<and>
         (invariant v \<longrightarrow> invariant ((with_buffer v b)\<lparr>vsize := vsize v + 1\<rparr>))"
  using assms unfolding prefix_constructed_iff invariant_iff with_buffer_def
  by (auto simp: less_Suc_eq)

lemma shrink_to:
  assumes "length b = length (buffer (data v))" and "n \<le> vsize v"
    and "\<forall>k<length (buffer (data v)). (b ! k \<noteq> None) = (buffer (data v) ! k \<noteq> None \<and> \<not> (n \<le> k \<and> k < vsize v))"
    and "prefix_constructed v"
  shows "prefix_constructed ((with_buffer v b)\<lparr>vsize := n\<rparr>) \<and>
         (invariant v \<longrightarrow> invariant ((with_buffer v b)\<lparr>vsize := n\<rparr>))"
  using assms unfolding prefix_constructed_iff invariant_iff with_buffer_def
  by auto

lemma push_slot:
  assumes "vsize v < length (buffer (data v))" and "prefix_constructed v"
  shows "prefix_constructed ((with_buffer v ((buffer (data v))[vsize v := Some y]))\<lparr>vsize := vsize v + 1\<rparr>) \<and>
         (invariant v \<longrightarrow>
            invariant ((with_buffer v ((buffer (data v))[vsize v := Some y]))\<lparr>vsize := vsize v + 1\<rparr>))"
  using assms by (intro grow_by_one) (auto simp: nth_list_update)

lemma construct_at_fresh:
  assumes "length new = c \<and> n \<le> c \<and> (\<forall>k<c. (new ! k \<noteq> None) = (k < n))"
    and "construct_at T new n args w = Returned () (new', w')"
  shows "length new' = c \<and> n + 1 \<le> c \<and> (\<forall>k<c. (new' ! k \<noteq> None) = (k < n + 1))"
  using assms(1) construct_at_Returned[OF assms(2)]
  by (auto simp: nth_list_update less_Suc_eq)

lemma EmplaceBack_growth_Threw:
  assumes "EmplaceBack T args v w = Threw e (v', w')" "vsize v = Capacity v"
  shows "\<exists>old. v' = with_buffer v old \<and> length old = length (buffer (data v)) \<and>
           occupied old = occupied (buffer (data v))"
  using assms unfolding EmplaceBack_def Let_def
  by (auto split: outcome.splits option.splits if_splits prod.splits
      dest!: umn_Threw_shape umn_Returned_shape ucn_Threw_state ucn_Returned_state
      intro: exI[of _ "buffer (data v)"])

lemma EmplaceBack_preserves:
  fixes v :: "'a Vector"
  assumes "state_of (EmplaceBack T args v w) = Some (v', w')" and "prefix_constructed v"
  shows "prefix_constructed v' \<and> (invariant v \<longrightarrow> invariant v')"
proof (cases "vsize v = Capacity v")
  case False
  have here: "prefix_constructed ((with_buffer v (moved_out T b args))\<lparr>vsize := vsize v + 1\<rparr>) \<and>
      (invariant v \<longrightarrow> invariant ((with_buffer v (moved_out T b args))\<lparr>vsize := vsize v + 1\<rparr>))"
    if "construct_at T (buffer (data v)) (vsize v) a w = Returned () (b, w1)" for a b w1
  proof -
    let ?u = "(with_buffer v b)\<lparr>vsize := vsize v + 1\<rparr>"
    from construct_at_Returned[OF that] push_slot[OF _ assms(2)]
    have "prefix_constructed ?u \<and> (invariant v \<longrightarrow> invariant ?u)" by auto
    moreover have "prefix_constructed ((with_buffer v (moved_out T b args))\<lparr>vsize := vsize v + 1\<rparr>)
        = prefix_constructed ?u"
      "invariant ((with_buffer v (moved_out T b args))\<lparr>vsize := vsize v + 1\<rparr>) = invariant ?u"
      by (rule same_shape; simp)+
    ultimately show ?thesis by simp
  qed
  have failed: "b = buffer (data v)"
    if "construct_at T (buffer (data v)) (vsize v) a w = Threw e (b, w1)" for a e b w1
    using construct_at_Threw[OF that] .
  from assms False show ?thesis
    unfolding EmplaceBack_def
    by (auto split: outcome.splits option.splits dest: here failed)
next
  case True
  let ?nc = "if vsize v = 0 then 1 else vsize v * 2"
  let ?buf = "buffer (data v)"
  from assms(1) consider (ret) r where "EmplaceBack T args v w = Returned r (v', w')"
    | (thr) e where "EmplaceBack T args v w = Threw e (v', w')"
    by (auto simp: state_of_Some_iff)
  then show ?thesis
  proof cases
    case thr
    from EmplaceBack_growth_Threw[OF thr True] obtain old where
      "v' = with_buffer v old" "length old = length ?buf" "occupied old = occupied ?buf"
      by blast
    with assms(2) same_shape_prefix_constructed[of old v] same_shape_invariant[of old v]
    show ?thesis by simp
  next
    case ret
    from ret True obtain new_data :: "'a RawMemory" and w1 old new w2 a new' w3 where
      alloc: "RawMemory_sized T ?nc w = Returned new_data w1"
      and r: "(if nothrow_move_constructible T \<or> \<not> copy_constructible T
        then uninitialized_move_n T ?buf 0 (vsize v) (buffer new_data) 0 w1
        else uninitialized_copy_n ?buf 0 (vsize v) (buffer new_data) 0 w1)
         = Returned () (old, new, w2)"
      and c: "construct_at T new (vsize v) a w2 = Returned () (new', w3)"
      and v': "v' = \<lparr>data = new_data\<lparr>buffer := new'\<rparr>, vsize = vsize v + 1\<rparr>"
      by (rule EmplaceBack_growth_Returned)
    from RawMemory_sized_Returned[OF alloc]
    have nd: "buffer new_data = replicate (block_slots T ?nc) None" by simp
    from r nd have "length new = block_slots T ?nc \<and> vsize v \<le> block_slots T ?nc \<and>
        (\<forall>k<block_slots T ?nc. (new ! k \<noteq> None) = (k < vsize v))"
      using umn_Returned_fresh[of T ?buf "vsize v" "block_slots T ?nc" w1 old new w2]
        ucn_Returned_fresh[of ?buf "vsize v" "block_slots T ?nc" w1 old new w2]
      by (auto split: if_splits)
    from construct_at_fresh[OF this c] fresh_invariant[OF alloc, of new' "vsize v + 1"]
    have "invariant v'" by (simp add: v')
    then show ?thesis by (auto intro: invariant_prefix_constructed)
  qed
qed

lemma ucn_Threw_src: "uninitialized_copy_n src i n dst j w = Threw e (src', dst', w') \<Longrightarrow> src' = src"
  by (simp add: ucn_Threw_state)

lemma ucn_Returned_src_same:
  "uninitialized_copy_n src i n dst j w = Returned () (src', dst', w') \<Longrightarrow> src' = src"
  by (simp add: ucn_Returned_state)

lemma EmplaceWithRealloc_Threw:
  assumes "EmplaceWithRealloc T index args v w = Threw e (v', w')"
  shows "\<exists>old. v' = with_buffer v old \<and> length old = length (buffer (data v)) \<and>
           occupied old = occupied (buffer (data v))"
  using assms unfolding EmplaceWithRealloc_def Let_def
  by (auto split: outcome.splits option.splits if_splits prod.splits
      dest!: umn_Threw_shape umn_Returned_shape ucn_Threw_src ucn_Returned_src_same
             construct_at_Threw
      intro: exI[of _ "buffer (data v)"])

lemma EmplaceWithRealloc_Returned_invariant:
  fixes v :: "'a Vector"
  assumes ret: "EmplaceWithRealloc T index args v w = Returned r (v', w')"
  shows "invariant v'"
proof -
  let ?nc = "if vsize v = 0 then 1 else vsize v * 2"
  let ?L = "block_slots T ?nc"
  let ?P = "nothrow_move_constructible T \<or> \<not> copy_constructible T"
  let ?buf = "buffer (data v)" and ?n = "vsize v"
  from ret obtain new_data :: "'a RawMemory" and w1 old1 new1 w2 a new2 w3 old new w4 where
    alloc: "RawMemory_sized T ?nc w = Returned new_data w1"
    and le: "index \<le> ?n"
    and r1: "if ?P then uninitialized_move_n T ?buf 0 index (buffer new_data) 0 w1
                          = Returned () (old1, new1, w2)
             else uninitialized_copy_n ?buf 0 index (buffer new_data) 0 w1
                          = Returned () (old1, new1, w2)"
    and c: "construct_at T new1 index a w2 = Returned () (new2, w3)"
    and r2: "if ?P then uninitialized_move_n T (moved_out T old1 args) index (?n - index)
                          new2 (index + 1) w3 = Returned () (old, new, w4)
             else uninitialized_copy_n (moved_out T old1 args) index (?n - index)
                          new2 (index + 1) w3 = Returned () (old, new, w4)"
    and v': "v' = \<lparr>data = new_data\<lparr>buffer := new\<rparr>, vsize = ?n + 1\<rparr>"
    by (rule EmplaceWithRealloc_Returned)
  from RawMemory_sized_Returned[OF alloc]
  have nd: "buffer new_data = replicate ?L None" by simp
  note f1 = relocation_Returned[OF r1] and s1 = relocation_Returned_src[OF r1]
  note f2 = relocation_Returned[OF r2] and s2 = relocation_Returned_src[OF r2]
  from construct_at_Returned[OF c]
  have n2: "new2 = new1[index := Some (arg_value a)]" and ix: "index < length new1" by simp_all
  have l1: "length new1 = ?L" using f1 nd by simp
  have l2: "length new2 = ?L" using l1 n2 by simp
  have l: "length new = ?L" using f2 l2 by simp
  have cap: "?n + 1 \<le> ?L"
  proof (cases "index = ?n")
    case True
    with ix l1 show ?thesis by simp
  next
    case False
    with le have "?n - index - 1 < ?n - index" by simp
    from s2[rule_format, OF this] l2 have "index + 1 + (?n - index - 1) < ?L" by simp
    with le False show ?thesis by linarith
  qed
  have "(new ! k \<noteq> None) = (k < ?n + 1)" if k: "k < ?L" for k
  proof -
    consider "k < index" | "k = index" | "index < k" "k \<le> ?n" | "?n < k" using le by linarith
    then show ?thesis
    proof cases
      case 1
      with f1 f2 s1 k l1 l2 nd n2 le show ?thesis by simp
    next
      case 2
      with f2 k l1 l2 n2 le show ?thesis by simp
    next
      case 3
      then have "k - 1 - index < ?n - index" "index + (k - 1 - index) = k - 1"
        "index + k - (index + 1) = k - 1" by simp_all
      with s2 have "slot_at (moved_out T old1 args) (k - 1) \<noteq> None" by metis
      with 3 f2 k l2 \<open>index + k - (index + 1) = k - 1\<close> show ?thesis by simp
    next
      case 4
      with f1 f2 k l1 l2 nd n2 le show ?thesis by simp
    qed
  qed
  with l cap have "length new = ?L \<and> ?n + 1 \<le> ?L \<and> (\<forall>k<?L. (new ! k \<noteq> None) = (k < ?n + 1))"
    by blast
  from fresh_invariant[OF alloc this] show ?thesis by (simp add: v')
qed

lemma Threw_nothrow_move_assign:
  "nothrow_move_assignable T \<Longrightarrow> move_assign T x w \<noteq> Threw e w'"
  by (simp add: move_assign_def)

lemma shr_nothrow:
  "nothrow_move_assignable T \<Longrightarrow> shift_right T buf m index w \<noteq> Threw e s"
proof (induction m arbitrary: buf w)
  case 0
  then show ?case by simp
next
  case (Suc i)
  show ?case
  proof
    assume t: "shift_right T buf (Suc i) index w = Threw e s"
    obtain b' w' where s: "s = (b', w')" by (cases s)
    show False
    proof (cases "index \<le> i")
      case True
      from t[unfolded s] True show False
      proof (cases rule: shr_Suc_Threw)
        case (here x z)
        with Threw_nothrow_move_assign[OF Suc.prems] show False by blast
      next
        case (later x z w1)
        with Suc.IH[OF Suc.prems] s show False by blast
      qed
    next
      case False
      with t show False by simp
    qed
  qed
qed

lemma mvn_nothrow:
  "nothrow_move_assignable T \<Longrightarrow> move_n T buf first n d w \<noteq> Threw e s"
proof (induction n arbitrary: buf first d w)
  case 0
  then show ?case by simp
next
  case (Suc n)
  show ?case
  proof
    assume t: "move_n T buf first (Suc n) d w = Threw e s"
    obtain b' w' where s: "s = (b', w')" by (cases s)
    from t[unfolded s] show False
    proof (cases rule: mvn_Suc_Threw)
      case (here x z)
      with Threw_nothrow_move_assign[OF Suc.prems] show False by blast
    next
      case (later x z w1)
      with Suc.IH[OF Suc.prems] s show False by blast
    qed
  qed
qed

lemma extra_slot_prefix_constructed:
  assumes "prefix_constructed v" and "0 < vsize v" and "vsize v < length (buffer (data v))"
    and "length b = length (buffer (data v)) \<and>
         occupied b = occupied ((buffer (data v))[vsize v - 1 := Some p, vsize v := Some q])"
  shows "prefix_constructed (with_buffer v b)"
proof -
  let ?buf = "buffer (data v)" and ?n = "vsize v"
  let ?b0 = "?buf[?n - 1 := Some p, ?n := Some q]"
  have "b ! k \<noteq> None" if "k < ?n" for k
  proof -
    from that assms(3) have kl: "k < length ?b0" by simp
    from assms(4) have "length b = length ?b0" "occupied b = occupied ?b0" by simp_all
    from occupied_eq_nth[OF this kl] have "(b ! k \<noteq> None) = (?b0 ! k \<noteq> None)" .
    moreover have "?b0 ! k \<noteq> None"
      using assms(1) that kl by (auto simp: nth_list_update prefix_constructed_iff)
    ultimately show ?thesis by simp
  qed
  with assms(1,4) show ?thesis
    by (simp add: prefix_constructed_iff with_buffer_def)
qed

lemma with_buffer_with_buffer [simp]: "with_buffer (with_buffer v b) c = with_buffer v c"
  by (simp add: with_buffer_def)

text \<open>
  Once \<open>temp\<close> is constructed, the in-place insertion goes on as one of a value outside
  the vector would, from the block as the construction of \<open>temp\<close> has left it.
\<close>

lemma in_place_reduce:
  assumes "read_args (buffer (data v)) args = Some a"
  shows "EmplaceWithoutRealloc T index args v w =
     (case construct_from T a w of
        Threw e w1 \<Rightarrow> Threw e (v, w1)
      | Undefined \<Rightarrow> Undefined
      | Returned temp w1 \<Rightarrow>
          EmplaceWithoutRealloc T index (external a)
            (with_buffer v (moved_out T (buffer (data v)) args)) w)"
proof (cases "construct_from T a w")
  case (Returned temp w1)
  with assms show ?thesis
    unfolding EmplaceWithoutRealloc_def Let_def
    by (simp cong: outcome.case_cong option.case_cong prod.case_cong if_cong)
qed (use assms in \<open>simp_all add: EmplaceWithoutRealloc_def\<close>)

lemma moved_out_vector:
  "prefix_constructed (with_buffer v (moved_out T (buffer (data v)) args)) = prefix_constructed v"
  "invariant (with_buffer v (moved_out T (buffer (data v)) args)) = invariant v"
  by (rule same_shape; simp)+

lemma EmplaceWithoutRealloc_Threw_prefix_outside:
  assumes "EmplaceWithoutRealloc T index (external a) v w = Threw e (v', w')"
    and "prefix_constructed v"
  shows "prefix_constructed v'"
  using assms unfolding EmplaceWithoutRealloc_def Let_def
  by (auto split: outcome.splits if_splits prod.splits option.splits
      dest!: shr_Threw_occupied shr_Returned_occupied construct_at_Threw
      intro: extra_slot_prefix_constructed)

lemma EmplaceWithoutRealloc_Threw_prefix:
  assumes "EmplaceWithoutRealloc T index args v w = Threw e (v', w')"
    and "prefix_constructed v"
  shows "prefix_constructed v'"
proof -
  let ?v1 = "with_buffer v (moved_out T (buffer (data v)) args)"
  from assms(1) obtain a where ra: "read_args (buffer (data v)) args = Some a"
    unfolding EmplaceWithoutRealloc_def by (cases "read_args (buffer (data v)) args") auto
  show ?thesis
  proof (cases "construct_from T a w")
    case (Returned temp w1)
    with assms(1) in_place_reduce[OF ra, of T index w]
    have "EmplaceWithoutRealloc T index (external a) ?v1 w = Threw e (v', w')" by simp
    from EmplaceWithoutRealloc_Threw_prefix_outside[OF this] assms(2) show ?thesis
      by (simp add: moved_out_vector)
  next
    case (Threw e1 w1)
    with assms in_place_reduce[OF ra, of T index w] show ?thesis by simp
  next
    case Undefined
    with assms in_place_reduce[OF ra, of T index w] show ?thesis by simp
  qed
qed

lemma EmplaceWithoutRealloc_Threw_nothrow_outside:
  assumes "EmplaceWithoutRealloc T index (external a) v w = Threw e (v', w')"
    and "nothrow_move_assignable T"
  shows "v' = v"
  using assms unfolding EmplaceWithoutRealloc_def Let_def
  by (auto split: outcome.splits if_splits prod.splits option.splits
      dest!: construct_at_Threw
      simp: shr_nothrow Threw_nothrow_move_assign)

lemma EmplaceWithoutRealloc_Threw_nothrow:
  assumes "EmplaceWithoutRealloc T index args v w = Threw e (v', w')"
    and "nothrow_move_assignable T"
  shows "\<exists>b. v' = with_buffer v b \<and> length b = length (buffer (data v)) \<and>
           occupied b = occupied (buffer (data v))"
proof -
  let ?v1 = "with_buffer v (moved_out T (buffer (data v)) args)"
  from assms(1) obtain a where ra: "read_args (buffer (data v)) args = Some a"
    unfolding EmplaceWithoutRealloc_def by (cases "read_args (buffer (data v)) args") auto
  show ?thesis
  proof (cases "construct_from T a w")
    case (Returned temp w1)
    with assms(1) in_place_reduce[OF ra, of T index w]
    have "EmplaceWithoutRealloc T index (external a) ?v1 w = Threw e (v', w')" by simp
    from EmplaceWithoutRealloc_Threw_nothrow_outside[OF this assms(2)]
    show ?thesis by (intro exI[of _ "moved_out T (buffer (data v)) args"]) simp
  next
    case (Threw e1 w1)
    with assms in_place_reduce[OF ra, of T index w] have "v' = v" by simp
    then show ?thesis by (intro exI[of _ "buffer (data v)"]) simp
  next
    case Undefined
    with assms in_place_reduce[OF ra, of T index w] show ?thesis by simp
  qed
qed

lemma EmplaceWithoutRealloc_Returned_preserves_outside:
  assumes ret: "EmplaceWithoutRealloc T index (external args) v w = Returned r (v', w')"
    and pc: "prefix_constructed v" and le: "index \<le> vsize v"
  shows "prefix_constructed v' \<and> (invariant v \<longrightarrow> invariant v')"
  using ret
proof (cases rule: EmplaceWithoutRealloc_Returned)
  case (at_end a w1 b w2)
  from at_end(1) have a: "a = args" by simp
  from at_end(3) le have idx: "index = vsize v" by simp
  from construct_at_Returned[OF at_end(4)] idx a
  have "b = (buffer (data v))[vsize v := Some (arg_value args)]" "vsize v < length (buffer (data v))"
    by simp_all
  with push_slot[OF _ pc, of "arg_value args"] at_end(5) show ?thesis by simp
next
  case (middle a w1 x w2 b w3 z w4)
  let ?buf = "buffer (data v)" and ?n = "vsize v"
  let ?b0 = "?buf[?n - 1 := Some (moved_from T x), ?n := Some x]"
  let ?b' = "b[index := Some (arg_value args)]"
  from middle(1) have a: "a = args" by simp
  note middle = middle(2-)[unfolded a moved_out_external]
  from shr_Returned_occupied[OF middle(6)]
  have lb: "length b = length ?buf" and ob: "occupied b = occupied ?b0" by simp_all
  from slot_at_Some_length[OF middle(7)] have bi: "index < length b" "b ! index \<noteq> None" by simp_all
  from slot_at_Some_length[OF middle(3)] have last: "?buf ! (?n - 1) \<noteq> None" by simp
  have "(?b' ! k \<noteq> None) = (?buf ! k \<noteq> None \<or> k = ?n)" if "k < length ?buf" for k
  proof -
    from that have kl: "k < length ?b0" by simp
    from occupied_eq_nth[OF _ ob kl] lb have "(b ! k \<noteq> None) = (?b0 ! k \<noteq> None)" by simp
    with that lb bi last middle(4) show ?thesis
      by (auto simp: nth_list_update)
  qed
  with grow_by_one[of ?b' v] lb middle(4) pc middle(9) show ?thesis by simp
qed

lemma EmplaceWithoutRealloc_Returned_preserves:
  assumes ret: "EmplaceWithoutRealloc T index args v w = Returned r (v', w')"
    and pc: "prefix_constructed v" and le: "index \<le> vsize v"
  shows "prefix_constructed v' \<and> (invariant v \<longrightarrow> invariant v')"
proof -
  let ?v1 = "with_buffer v (moved_out T (buffer (data v)) args)"
  from ret obtain a where ra: "read_args (buffer (data v)) args = Some a"
    unfolding EmplaceWithoutRealloc_def by (cases "read_args (buffer (data v)) args") auto
  from ret in_place_reduce[OF ra, of T index w]
  have "EmplaceWithoutRealloc T index (external a) ?v1 w = Returned r (v', w')"
    by (cases "construct_from T a w") simp_all
  from EmplaceWithoutRealloc_Returned_preserves_outside[OF this] pc le
  show ?thesis by (simp add: moved_out_vector)
qed

text \<open>
  An insertion that throws leaves the invariant in place on every path but one: the
  in-place insertion before the end, which has shifted elements when it fails.
\<close>

lemma EmplaceWithoutRealloc_at_end_Threw:
  assumes "EmplaceWithoutRealloc T index args v w = Threw e (v', w')" and "\<not> index < vsize v"
  shows "\<exists>b. v' = with_buffer v b \<and> length b = length (buffer (data v)) \<and>
           occupied b = occupied (buffer (data v))"
proof -
  let ?v1 = "with_buffer v (moved_out T (buffer (data v)) args)"
  from assms(1) obtain a where ra: "read_args (buffer (data v)) args = Some a"
    unfolding EmplaceWithoutRealloc_def by (cases "read_args (buffer (data v)) args") auto
  show ?thesis
  proof (cases "construct_from T a w")
    case (Returned temp w1)
    with assms(1) in_place_reduce[OF ra, of T index w]
    have "EmplaceWithoutRealloc T index (external a) ?v1 w = Threw e (v', w')" by simp
    with assms(2) have "v' = ?v1"
      unfolding EmplaceWithoutRealloc_def Let_def
      by (auto split: outcome.splits prod.splits dest!: construct_at_Threw)
    then show ?thesis by (intro exI[of _ "moved_out T (buffer (data v)) args"]) simp
  next
    case (Threw e1 w1)
    with assms in_place_reduce[OF ra, of T index w] have "v' = v" by simp
    then show ?thesis by (intro exI[of _ "buffer (data v)"]) simp
  next
    case Undefined
    with assms in_place_reduce[OF ra, of T index w] show ?thesis by simp
  qed
qed

lemma Emplace_preserves:
  assumes "state_of (Emplace T index args v w) = Some (v', w')"
    and "prefix_constructed v" and "index \<le> vsize v"
  shows "prefix_constructed v' \<and>
         (invariant v \<longrightarrow> \<not> in_place_insert_threw T index args v w \<longrightarrow> invariant v')"
proof (cases "vsize v = Capacity v")
  case True
  with assms(1) have s: "state_of (EmplaceWithRealloc T index args v w) = Some (v', w')"
    by (simp add: Emplace_def)
  show ?thesis
  proof (cases "EmplaceWithRealloc T index args v w")
    case (Returned r t)
    with s have "EmplaceWithRealloc T index args v w = Returned r (v', w')" by simp
    from EmplaceWithRealloc_Returned_invariant[OF this] show ?thesis
      by (simp add: invariant_prefix_constructed)
  next
    case (Threw e t)
    with s have "EmplaceWithRealloc T index args v w = Threw e (v', w')" by simp
    from EmplaceWithRealloc_Threw[OF this] assms(2) show ?thesis
      by (auto intro: same_shape_prefix_constructed same_shape_invariant)
  next
    case Undefined
    with s show ?thesis by simp
  qed
next
  case False
  with assms(1) have s: "state_of (EmplaceWithoutRealloc T index args v w) = Some (v', w')"
    by (simp add: Emplace_def)
  show ?thesis
  proof (cases "EmplaceWithoutRealloc T index args v w")
    case (Returned r t)
    with s have "EmplaceWithoutRealloc T index args v w = Returned r (v', w')" by simp
    from EmplaceWithoutRealloc_Returned_preserves[OF this assms(2,3)] show ?thesis by simp
  next
    case (Threw e t)
    with s have t: "EmplaceWithoutRealloc T index args v w = Threw e (v', w')" by simp
    have "invariant v'" if inv: "invariant v" and ok: "\<not> in_place_insert_threw T index args v w"
    proof -
      from ok False t have "nothrow_move_assignable T \<or> \<not> index < vsize v"
        by (auto simp: in_place_insert_threw_def Emplace_def)
      then obtain b where "v' = with_buffer v b" "length b = length (buffer (data v))"
        "occupied b = occupied (buffer (data v))"
        using EmplaceWithoutRealloc_Threw_nothrow[OF t] EmplaceWithoutRealloc_at_end_Threw[OF t]
        by blast
      with inv show ?thesis by (auto intro: same_shape_invariant)
    qed
    with EmplaceWithoutRealloc_Threw_prefix[OF t assms(2)] show ?thesis by simp
  next
    case Undefined
    with s show ?thesis by simp
  qed
qed

lemma shrink_by_one:
  assumes "prefix_constructed v" and "0 < vsize v"
    and "length b = length (buffer (data v)) \<and> occupied b = occupied (buffer (data v))"
  shows "prefix_constructed ((with_buffer v (b[vsize v - 1 := None]))\<lparr>vsize := vsize v - 1\<rparr>) \<and>
         (invariant v \<longrightarrow>
            invariant ((with_buffer v (b[vsize v - 1 := None]))\<lparr>vsize := vsize v - 1\<rparr>))"
proof -
  let ?buf = "buffer (data v)"
  have "(b[vsize v - 1 := None] ! k \<noteq> None) = (?buf ! k \<noteq> None \<and> \<not> (vsize v - 1 \<le> k \<and> k < vsize v))"
    if "k < length ?buf" for k
  proof (cases "k = vsize v - 1")
    case True
    with that assms(2,3) show ?thesis by simp
  next
    case False
    then have "\<not> (vsize v - 1 \<le> k \<and> k < vsize v)" by linarith
    with False that assms(3) occupied_eq_nth[of b ?buf k] show ?thesis by simp
  qed
  with shrink_to[of "b[vsize v - 1 := None]" v "vsize v - 1"] assms show ?thesis by simp
qed

lemma Erase_preserves:
  assumes "state_of (Erase T index v w) = Some (v', w')" and "prefix_constructed v"
  shows "prefix_constructed v' \<and> (invariant v \<longrightarrow> invariant v')"
proof (cases "index < vsize v")
  case False
  with assms show ?thesis by (simp add: Erase_def)
next
  case True
  let ?m = "move_n T (buffer (data v)) (Suc index) (vsize v - Suc index) index w"
  from True have pos: "0 < vsize v" by simp
  show ?thesis
  proof (cases ?m)
    case Undefined
    with assms True show ?thesis by (simp add: Erase_def std_move_def)
  next
    case (Threw e s)
    obtain b w1 where s: "s = (b, w1)" by (cases s)
    with assms True Threw have "v' = with_buffer v b"
      by (simp add: Erase_def std_move_def)
    with mvn_Threw_occupied[OF Threw[unfolded s]] assms(2) show ?thesis
      by (auto intro: same_shape_prefix_constructed same_shape_invariant)
  next
    case (Returned u s)
    obtain b w1 where s: "s = (b, w1)" by (cases s)
    with assms True Returned
    have "v' = (with_buffer v (b[vsize v - 1 := None]))\<lparr>vsize := vsize v - 1\<rparr>"
      by (simp add: Erase_def std_move_def destroy_at_def)
    moreover from Returned s have "?m = Returned () (b, w1)" by simp
    from mvn_Returned_occupied[OF this]
    have "length b = length (buffer (data v)) \<and> occupied b = occupied (buffer (data v))" .
    ultimately show ?thesis using shrink_by_one[OF assms(2) pos] by simp
  qed
qed

lemma PopBack_preserves:
  assumes "state_of (PopBack v w) = Some (v', w')" and "prefix_constructed v"
  shows "prefix_constructed v' \<and> (invariant v \<longrightarrow> invariant v')"
  using assms shrink_by_one[of v "buffer (data v)"] unfolding PopBack_def destroy_at_def
  by (auto split: if_splits)

lemma Resize_shrink_preserves:
  assumes "prefix_constructed v" and "n < vsize v"
  shows "prefix_constructed ((with_buffer v (fst (destroy_n (buffer (data v)) n (vsize v - n) w)))\<lparr>vsize := n\<rparr>) \<and>
         (invariant v \<longrightarrow>
           invariant ((with_buffer v (fst (destroy_n (buffer (data v)) n (vsize v - n) w)))\<lparr>vsize := n\<rparr>))"
  using assms by (intro shrink_to) (auto simp: destroy_n_nth)

lemma uvn_Returned_grow:
  assumes "uninitialized_value_construct_n T (buffer (data v)) (vsize v) (n - vsize v) w
             = Returned () (b, w')"
    and "prefix_constructed v" and "vsize v \<le> n"
  shows "prefix_constructed ((with_buffer v b)\<lparr>vsize := n\<rparr>) \<and>
         (invariant v \<longrightarrow> invariant ((with_buffer v b)\<lparr>vsize := n\<rparr>))"
proof -
  let ?buf = "buffer (data v)"
  from uvn_Returned_length[OF assms(1)] have lb: "length b = length ?buf" .
  have bound: "n \<le> length ?buf"
  proof (cases "vsize v = n")
    case True
    with assms(2) show ?thesis by (simp add: prefix_constructed_iff)
  next
    case False
    with assms(3) uvn_Returned_bound[OF assms(1)] show ?thesis by simp
  qed
  have nth: "b ! k = (if vsize v \<le> k \<and> k < n then Some (value_init T) else ?buf ! k)"
    if "k < length ?buf" for k
    using uvn_Returned_nth[OF assms(1) that] assms(3) by simp
  show ?thesis
    using assms(2,3) lb bound nth
    unfolding prefix_constructed_iff invariant_iff with_buffer_def
    by auto
qed

lemma uvn_Threw_keep:
  assumes "uninitialized_value_construct_n T (buffer (data v)) (vsize v) m w = Threw e (b, w')"
    and "prefix_constructed v"
  shows "prefix_constructed (with_buffer v b) \<and> (invariant v \<longrightarrow> invariant (with_buffer v b))"
proof -
  let ?buf = "buffer (data v)"
  from uvn_Threw_length[OF assms(1)] have lb: "length b = length ?buf" .
  from assms(2) have len: "length ?buf \<le> capacity (data v)" "vsize v \<le> length ?buf"
    by (simp_all add: prefix_constructed_iff)
  have nth: "b ! k = ?buf ! k \<or> (vsize v \<le> k \<and> b ! k = None)" if "k < length ?buf" for k
    using uvn_Threw_nth[OF assms(1) that] by auto
  have low: "b ! k \<noteq> None" if "k < vsize v" for k
    using nth[of k] that assms(2) len by (auto simp: prefix_constructed_iff)
  have high: "b ! k = None" if "vsize v \<le> k" "k < length ?buf" "invariant v" for k
    using nth[of k] that len by (auto simp: invariant_iff)
  have 1: "prefix_constructed (with_buffer v b)"
    using low lb len by (simp add: prefix_constructed_iff with_buffer_def)
  have 2: "invariant (with_buffer v b)" if "invariant v"
    unfolding invariant_iff using low high[OF _ _ that] lb len
    by (auto simp: with_buffer_def) (metis not_le_imp_less option.distinct(1))
  from 1 2 show ?thesis by simp
qed

lemma Resize_preserves:
  assumes "state_of (Resize T n v w) = Some (v', w')" and "prefix_constructed v"
  shows "prefix_constructed v' \<and> (invariant v \<longrightarrow> invariant v')"
proof (cases "n < vsize v")
  case True
  with assms(1) have "v' = (with_buffer v (fst (destroy_n (buffer (data v)) n (vsize v - n) w)))\<lparr>vsize := n\<rparr>"
    by (auto simp: Resize_def split_def)
  with Resize_shrink_preserves[OF assms(2) True] show ?thesis by simp
next
  case False
  let ?res = "if n > Capacity v then Reserve T n v w else Returned () (v, w)"
  show ?thesis
  proof (cases ?res)
    case Undefined
    with assms(1) False show ?thesis by (simp add: Resize_def)
  next
    case (Threw e s)
    with assms(1) False have "state_of (Reserve T n v w) = Some (v', w')"
      by (auto simp: Resize_def split: if_splits)
    from Reserve_preserves[OF this assms(2)] show ?thesis .
  next
    case (Returned u s)
    obtain v1 w1 where s: "s = (v1, w1)" by (cases s)
    have v1: "prefix_constructed v1 \<and> (invariant v \<longrightarrow> invariant v1)" and sz: "vsize v1 = vsize v"
    proof -
      show "prefix_constructed v1 \<and> (invariant v \<longrightarrow> invariant v1)"
      proof (cases "n > Capacity v")
        case True
        with Returned s have "state_of (Reserve T n v w) = Some (v1, w1)" by simp
        from Reserve_preserves[OF this assms(2)] show ?thesis .
      next
        case False
        with Returned s assms(2) show ?thesis by simp
      qed
      show "vsize v1 = vsize v"
        using Returned s unfolding Reserve_def
        by (auto split: if_splits outcome.splits prod.splits)
    qed
    let ?u = "uninitialized_value_construct_n T (buffer (data v1)) (vsize v1) (n - vsize v1) w1"
    show ?thesis
    proof (cases ?u)
      case Undefined
      with assms(1) False Returned s show ?thesis by (simp add: Resize_def)
    next
      case t: (Threw e t)
      obtain b w2 where "t = (b, w2)" by (cases t)
      with assms(1) False Returned s t have "v' = with_buffer v1 b"
        and "?u = Threw e (b, w2)"
        by (auto simp: Resize_def)
      with uvn_Threw_keep[OF this(2)] v1 show ?thesis by simp
    next
      case r: (Returned u' t)
      obtain b w2 where "t = (b, w2)" by (cases t)
      with assms(1) False Returned s r have "v' = (with_buffer v1 b)\<lparr>vsize := n\<rparr>"
        and "?u = Returned () (b, w2)"
        by (auto simp: Resize_def)
      with uvn_Returned_grow[OF this(2)] v1 sz False show ?thesis by simp
    qed
  qed
qed

lemma grow_to:
  assumes "prefix_constructed v" and "vsize v \<le> n" and "n \<le> length (buffer (data v))"
    and "length b = length (buffer (data v))"
    and "\<forall>k<length (buffer (data v)).
           (b ! k \<noteq> None) = (buffer (data v) ! k \<noteq> None \<or> (vsize v \<le> k \<and> k < n))"
  shows "prefix_constructed ((with_buffer v b)\<lparr>vsize := n\<rparr>) \<and>
         (invariant v \<longrightarrow> invariant ((with_buffer v b)\<lparr>vsize := n\<rparr>))"
proof -
  let ?buf = "buffer (data v)"
  from assms(1) have len: "length ?buf \<le> capacity (data v)" "vsize v \<le> length ?buf"
    and low: "\<forall>k<vsize v. ?buf ! k \<noteq> None"
    by (simp_all add: prefix_constructed_iff)
  have 1: "b ! k \<noteq> None" if "k < n" for k
    using that assms(2,3,5) low by (cases "k < vsize v") auto
  have 2: "(b ! k \<noteq> None) = (k < n)" if "k < length ?buf" "invariant v" for k
    using that assms(2,3,5) len by (auto simp: invariant_iff)
  show ?thesis
    unfolding prefix_constructed_iff invariant_iff
    using 1 2 len assms(3,4) by (auto simp: with_buffer_def invariant_iff)
qed

lemma keep_prefix:
  assumes "prefix_constructed v" and "length b = length (buffer (data v))"
    and "\<forall>k<length (buffer (data v)).
           (b ! k \<noteq> None) = (buffer (data v) ! k \<noteq> None) \<or> (vsize v \<le> k \<and> b ! k = None)"
  shows "prefix_constructed (with_buffer v b) \<and> (invariant v \<longrightarrow> invariant (with_buffer v b))"
proof -
  let ?buf = "buffer (data v)"
  from assms(1) have len: "length ?buf \<le> capacity (data v)" "vsize v \<le> length ?buf"
    and low: "\<forall>k<vsize v. ?buf ! k \<noteq> None"
    by (simp_all add: prefix_constructed_iff)
  have 1: "b ! k \<noteq> None" if "k < vsize v" for k
    using that assms(3) low len by (metis less_le_trans not_le)
  have 2: "(b ! k \<noteq> None) = (k < vsize v)" if "k < length ?buf" "invariant v" for k
  proof (cases "k < vsize v")
    case True
    with 1 show ?thesis by simp
  next
    case False
    with that have "?buf ! k = None" by (auto simp: invariant_iff)
    with assms(3) that(1) len False show ?thesis by auto
  qed
  show ?thesis
    unfolding prefix_constructed_iff invariant_iff
    using 1 2 len assms(2) by (auto simp: with_buffer_def invariant_iff)
qed

lemma Vector_default_invariant: "invariant Vector_default"
  by (simp add: invariant_def Vector_default_def RawMemory_default_def occupied_def)

lemma Vector_sized_invariant:
  fixes v :: "'a Vector"
  assumes "Vector_sized T n w = Returned v w'"
  shows "invariant v"
proof -
  from assms obtain m :: "'a RawMemory" and w1 where
    alloc: "RawMemory_sized T n w = Returned m w1"
    unfolding Vector_sized_def
    by (cases "RawMemory_sized T n w :: ('a RawMemory, world) outcome") auto
  from assms alloc obtain b where
    u: "uninitialized_value_construct_n T (buffer m) 0 n w1 = Returned () (b, w')"
    and v: "v = \<lparr>data = m\<lparr>buffer := b\<rparr>, vsize = n\<rparr>"
    unfolding Vector_sized_def
    by (cases "uninitialized_value_construct_n T (buffer m) 0 n w1") auto
  let ?L = "block_slots T n"
  from RawMemory_sized_Returned[OF alloc] have m: "buffer m = replicate ?L None" by simp
  have "n \<le> ?L"
    using uvn_Returned_bound[OF u] m by (cases "n = 0") simp_all
  with block_slots_le[of T n] have L: "?L = n" by simp
  have "length b = ?L \<and> n \<le> ?L \<and> (\<forall>k<?L. (b ! k \<noteq> None) = (k < n))"
    using uvn_Returned_length[OF u] uvn_Returned_nth[OF u] m L by simp
  from fresh_invariant[OF alloc this] v show ?thesis by simp
qed

lemma Vector_copy_invariant:
  fixes other :: "'a Vector"
  assumes "Vector_copy T other w = Returned v w'"
  shows "invariant v"
proof -
  from assms obtain m :: "'a RawMemory" and w1 src' b where
    alloc: "RawMemory_sized T (vsize other) w = Returned m w1"
    and c: "uninitialized_copy_n (buffer (data other)) 0 (vsize other) (buffer m) 0 w1
              = Returned () (src', b, w')"
    and v: "v = \<lparr>data = m\<lparr>buffer := b\<rparr>, vsize = vsize other\<rparr>"
    by (rule Vector_copy_Returned)
  from RawMemory_sized_Returned[OF alloc] c
  have "uninitialized_copy_n (buffer (data other)) 0 (vsize other)
          (replicate (block_slots T (vsize other)) None) 0 w1 = Returned () (src', b, w')" by simp
  from fresh_invariant[OF alloc ucn_Returned_fresh[OF this]] v show ?thesis by simp
qed

lemma Vector_move_states:
  "Vector_move other = (v, other') \<Longrightarrow> v = other \<and> invariant other'"
  by (auto simp: Vector_move_def invariant_def RawMemory_default_def occupied_def)

lemma Swap_states: "Swap v other = (v', other') \<Longrightarrow> v' = other \<and> other' = v"
  by (auto simp: Swap_def)

lemma assign_move_states:
  "p = this \<or> p = rhs \<Longrightarrow>
     operator_assign_move this rhs st p = st this \<or> operator_assign_move this rhs st p = st rhs"
  by (auto simp: operator_assign_move_def Swap_def)

lemma write_preserves:
  assumes "prefix_constructed v" and "index < vsize v"
  shows "prefix_constructed (with_buffer v ((buffer (data v))[index := Some x])) \<and>
         (invariant v \<longrightarrow> invariant (with_buffer v ((buffer (data v))[index := Some x])))"
proof -
  from assms have "slot_at (buffer (data v)) index \<noteq> None"
    by (auto simp: prefix_constructed_iff slot_at_def)
  then obtain z where "slot_at (buffer (data v)) index = Some z" by auto
  from occupied_update_Some[OF this, of x] assms(1) show ?thesis
    by (auto intro: same_shape_prefix_constructed same_shape_invariant)
qed

lemma PushBack_states:
  "state_of (PushBack_copy T x v w) = state_of (EmplaceBack T (Lvalue x) v w)"
  "state_of (PushBack_move T x v w) = state_of (EmplaceBack T (Rvalue x) v w)"
  by (auto simp: PushBack_copy_def PushBack_move_def split: outcome.splits)

lemma assign_copy_preserves:
  assumes out: "state_of (operator_assign_copy T this rhs st w) = Some (st', w')"
    and pa: "prefix_constructed (st this)" and pb: "prefix_constructed (st rhs)"
  shows "prefix_constructed (st' this) \<and> (invariant (st this) \<longrightarrow> invariant (st' this))"
proof (cases "this = rhs")
  case True
  with out pa show ?thesis by (simp add: operator_assign_copy_def)
next
  case ne: False
  let ?a = "st this" and ?b = "st rhs"
  let ?src = "buffer (data ?b)" and ?dst = "buffer (data ?a)"
  let ?sa = "vsize ?a" and ?sb = "vsize ?b"
  show ?thesis
  proof (cases "Capacity ?a < ?sb")
    case True
    show ?thesis
    proof (cases "Vector_copy T ?b w")
      case Undefined
      with out ne True show ?thesis by (simp add: operator_assign_copy_def)
    next
      case (Threw e w1)
      with out ne True have "st' = st" by (simp add: operator_assign_copy_def)
      with pa show ?thesis by simp
    next
      case (Returned tmp w1)
      with out ne True have "st' this = fst (Swap ?a tmp)"
        by (auto simp: operator_assign_copy_def split_def)
      then have "st' this = tmp" by (simp add: Swap_def)
      with Vector_copy_invariant[OF Returned] show ?thesis
        by (simp add: invariant_prefix_constructed)
    qed
  next
    case False
    then have fits: "?sb \<le> Capacity ?a" by simp
    from pa have ldst: "?sa \<le> length ?dst"
      by (simp add: prefix_constructed_iff)
    let ?c = "copy_n ?src 0 (min ?sa ?sb) ?dst 0 w"
    show ?thesis
    proof (cases ?c)
      case Undefined
      with out ne False show ?thesis by (simp add: operator_assign_copy_def)
    next
      case (Threw e s)
      obtain b w1 where s: "s = (b, w1)" by (cases s)
      with out ne False Threw have "st' this = with_buffer ?a b"
        by (auto simp: operator_assign_copy_def)
      with cpn_Threw_occupied[OF Threw[unfolded s]] pa show ?thesis
        by (auto intro: same_shape_prefix_constructed same_shape_invariant)
    next
      case (Returned u s)
      obtain b w1 where s: "s = (b, w1)" by (cases s)
      with Returned have c: "?c = Returned () (b, w1)" by simp
      from cpn_Returned_occupied[OF c]
      have lb: "length b = length ?dst" and ob: "occupied b = occupied ?dst" by simp_all
      have shape: "(b ! k \<noteq> None) = (?dst ! k \<noteq> None)" if "k < length ?dst" for k
        using occupied_eq_nth[OF lb ob that] .
      consider (grow) "?sa < ?sb" | (shrink) "?sb < ?sa" | (same) "?sa = ?sb" by linarith
      then show ?thesis
      proof cases
        case same
        with out ne False c have "st' this = (with_buffer ?a b)\<lparr>vsize := ?sa\<rparr>"
          by (auto simp: operator_assign_copy_def)
        moreover have "(with_buffer ?a b)\<lparr>vsize := ?sa\<rparr> = with_buffer ?a b"
          by (simp add: with_buffer_def)
        ultimately show ?thesis using lb ob pa
          by (auto intro: same_shape_prefix_constructed same_shape_invariant)
      next
        case shrink
        with out ne False c
        have "st' this = (with_buffer ?a (fst (destroy_n b ?sb (?sa - ?sb) w1)))\<lparr>vsize := ?sb\<rparr>"
          by (auto simp: operator_assign_copy_def split_def split: if_splits)
        moreover have "prefix_constructed ((with_buffer ?a (fst (destroy_n b ?sb (?sa - ?sb) w1)))\<lparr>vsize := ?sb\<rparr>) \<and>
            (invariant ?a \<longrightarrow>
              invariant ((with_buffer ?a (fst (destroy_n b ?sb (?sa - ?sb) w1)))\<lparr>vsize := ?sb\<rparr>))"
          using shrink lb shape pa
          by (intro shrink_to) (auto simp: destroy_n_nth)
        ultimately show ?thesis by simp
      next
        case grow
        let ?u = "uninitialized_copy_n ?src ?sa (?sb - ?sa) b ?sa w1"
        show ?thesis
        proof (cases ?u)
          case Undefined
          with out ne False c grow show ?thesis
            by (simp add: operator_assign_copy_def split: if_splits)
        next
          case t: (Threw e t)
          obtain s' b' w2 where t': "t = (s', b', w2)" by (cases t)
          with out ne False c grow t have st': "st' this = with_buffer ?a b'"
            by (auto simp: operator_assign_copy_def split: if_splits)
          from t t' have u: "?u = Threw e (s', b', w2)" by simp
          have "prefix_constructed (with_buffer ?a b') \<and> (invariant ?a \<longrightarrow> invariant (with_buffer ?a b'))"
          proof (rule keep_prefix[OF pa])
            show "length b' = length ?dst" using ucn_Threw_state[OF u] lb by simp
            show "\<forall>k<length ?dst. (b' ! k \<noteq> None) = (?dst ! k \<noteq> None) \<or> (?sa \<le> k \<and> b' ! k = None)"
              using ucn_Threw_nth[OF u] shape lb by (metis)
          qed
          with st' show ?thesis by simp
        next
          case r: (Returned u' t)
          obtain s' b' w2 where t': "t = (s', b', w2)" by (cases t)
          with out ne False c grow r have st': "st' this = (with_buffer ?a b')\<lparr>vsize := ?sb\<rparr>"
            by (auto simp: operator_assign_copy_def split: if_splits)
          from r t' have u: "?u = Returned () (s', b', w2)" by simp
          have "prefix_constructed ((with_buffer ?a b')\<lparr>vsize := ?sb\<rparr>) \<and>
                (invariant ?a \<longrightarrow> invariant ((with_buffer ?a b')\<lparr>vsize := ?sb\<rparr>))"
          proof (rule grow_to[OF pa])
            show "?sa \<le> ?sb" using grow by simp
            show "?sb \<le> length ?dst"
            proof -
              from grow have "?sb - ?sa - 1 < ?sb - ?sa" by simp
              from ucn_Returned_src[OF u this] lb have "?sa + (?sb - ?sa - 1) < length ?dst" by simp
              with grow show ?thesis by linarith
            qed
            show "length b' = length ?dst" using ucn_Returned_state[OF u] lb by simp
            show "\<forall>k<length ?dst. (b' ! k \<noteq> None) = (?dst ! k \<noteq> None \<or> (?sa \<le> k \<and> k < ?sb))"
            proof (intro allI impI)
              fix k
              assume k: "k < length ?dst"
              show "(b' ! k \<noteq> None) = (?dst ! k \<noteq> None \<or> (?sa \<le> k \<and> k < ?sb))"
              proof (cases "?sa \<le> k \<and> k < ?sb")
                case True
                then have "k - ?sa < ?sb - ?sa" "?sa + (k - ?sa) = k" "?sa + k - ?sa = k" by linarith+
                with ucn_Returned_src[OF u, of "k - ?sa"] have "slot_at ?src k \<noteq> None" by simp
                with ucn_Returned_nth[OF u, of k] k lb True grow show ?thesis by simp
              next
                case False
                with ucn_Returned_nth[OF u, of k] k lb shape[OF k] grow show ?thesis by auto
              qed
            qed
          qed
          with st' show ?thesis by simp
        qed
      qed
    qed
  qed
qed

text \<open>
  \<^verbatim>\<open>Erase\<close> is \<^verbatim>\<open>noexcept\<close> when the move assignment is: within its precondition it
  then returns.
\<close>

lemma mvn_nothrow_returns:
  assumes "nothrow_move_assignable T"
    and "\<forall>k. d \<le> k \<and> k \<le> d + n \<longrightarrow> slot_at buf k \<noteq> None"
  shows "returned (move_n T buf (Suc d) n d w)"
  using assms(2)
proof (induction n arbitrary: buf d w)
  case 0
  then show ?case by simp
next
  case (Suc n)
  from Suc.prems obtain x z where x: "slot_at buf (Suc d) = Some x" and z: "slot_at buf d = Some z"
    by (metis le_add1 le_refl not_None_eq Suc_le_mono add_Suc_right le0 le_SucI)
  let ?b = "buf[Suc d := Some (moved_from T x), d := Some x]"
  have "slot_at ?b k \<noteq> None" if "Suc d \<le> k" "k \<le> Suc d + n" for k
  proof -
    from that Suc.prems have "slot_at buf k \<noteq> None" by simp
    then show ?thesis by (simp add: slot_at_update)
  qed
  then have "\<forall>k. Suc d \<le> k \<and> k \<le> Suc d + n \<longrightarrow> slot_at ?b k \<noteq> None" by blast
  from Suc.IH[OF this, of "count MoveAssigned 1 w"] x z assms(1) show ?case
    by (simp add: move_assign_nothrow)
qed

lemma Erase_noexcept:
  assumes "nothrow_move_assignable T" and "prefix_constructed v" and "index < vsize v"
  shows "returned (Erase T index v w)"
proof -
  let ?buf = "buffer (data v)"
  have "\<forall>k. index \<le> k \<and> k \<le> index + (vsize v - Suc index) \<longrightarrow> slot_at ?buf k \<noteq> None"
    using assms(2,3) by (auto simp: prefix_constructed_iff slot_at_def)
  from mvn_nothrow_returns[OF assms(1) this, of w] assms(3) show ?thesis
    by (cases "move_n T ?buf (Suc index) (vsize v - Suc index) index w")
       (auto simp: Erase_def std_move_def destroy_at_def)
qed

section \<open>Without a failure the operations return\<close>

lemma throws_next_quiet: "op_faults w = [] \<Longrightarrow> throws_next w = (False, w)"
  by (simp add: throws_next_def)

lemma copy_construct_quiet:
  "op_faults w = [] \<Longrightarrow> copy_construct x w = Returned x (count Copied 1 w)"
  by (simp add: copy_construct_def throws_next_quiet)

lemma move_construct_quiet:
  "op_faults w = [] \<Longrightarrow> move_construct T x w = Returned (x, moved_from T x) (count Moved 1 w)"
  by (simp add: move_construct_def throws_next_quiet)

lemma move_assign_quiet:
  "op_faults w = [] \<Longrightarrow>
     move_assign T x w = Returned (x, moved_from T x) (count MoveAssigned 1 w)"
  by (simp add: move_assign_def throws_next_quiet)

lemma construct_from_quiet:
  "op_faults w = [] \<Longrightarrow>
     \<exists>w'. construct_from T args w = Returned (arg_value args) w' \<and> op_faults w' = [] \<and>
          alloc_faults w' = alloc_faults w"
  by (cases args) (simp_all add: copy_construct_quiet move_construct_quiet throws_next_quiet)

lemma construct_at_quiet:
  "op_faults w = [] \<Longrightarrow> j < length dst \<Longrightarrow>
     \<exists>w'. construct_at T dst j args w = Returned () (dst[j := Some (arg_value args)], w') \<and>
          op_faults w' = [] \<and> alloc_faults w' = alloc_faults w"
  using construct_from_quiet[of w T args] by (auto simp: construct_at_def)

lemma fits_size_t_block: "fits_size_t T n \<Longrightarrow> block_slots T n = n"
  by (simp add: fits_size_t_def block_slots_exact)

lemma RawMemory_sized_quiet:
  "alloc_faults w = [] \<Longrightarrow> fits_size_t T n \<Longrightarrow>
     \<exists>w'. RawMemory_sized T n w = Returned \<lparr>buffer = replicate n None, capacity = n\<rparr> w' \<and>
          op_faults w' = op_faults w \<and> alloc_faults w' = []"
  by (simp add: RawMemory_sized_def Allocate_def fits_size_t_block)

lemma read_args_shape:
  assumes "length own' = length own" "occupied own' = occupied own"
  shows "(read_args own' args = None) = (read_args own args = None)"
proof -
  have "(slot_at own' i = None) = (slot_at own i = None)" for i
    using assms occupied_eq_nth[OF assms, of i] by (auto simp: slot_at_def)
  then have "(deref own' r = None) = (deref own r = None)" for r
    by (cases r) simp_all
  then show ?thesis by (cases args) simp_all
qed

lemma ucn_quiet:
  assumes "op_faults w = []"
    and "\<forall>k<n. slot_at src (i + k) \<noteq> None" and "j + n \<le> length dst"
  shows "\<exists>dst' w'. uninitialized_copy_n src i n dst j w = Returned () (src, dst', w') \<and>
           op_faults w' = [] \<and> alloc_faults w' = alloc_faults w"
  using assms
proof (induction n arbitrary: i dst j w)
  case 0
  then show ?case by simp
next
  case (Suc n)
  from Suc.prems(2) obtain x where x: "slot_at src i = Some x"
    by (metis add.right_neutral not_None_eq zero_less_Suc)
  have "\<forall>k<n. slot_at src (Suc i + k) \<noteq> None" using Suc.prems(2) by auto
  from Suc.IH[OF _ this, of "count Copied 1 w" "Suc j" "dst[j := Some x]"] Suc.prems(1,3)
  obtain dst' w' where
    "uninitialized_copy_n src (Suc i) n (dst[j := Some x]) (Suc j) (count Copied 1 w)
       = Returned () (src, dst', w')" "op_faults w' = []" "alloc_faults w' = alloc_faults w"
    by auto
  with x Suc.prems(1,3) show ?case
    by (simp add: copy_construct_quiet)
qed

lemma umn_quiet:
  assumes "op_faults w = []"
    and "\<forall>k<n. slot_at src (i + k) \<noteq> None" and "j + n \<le> length dst"
  shows "\<exists>src' dst' w'. uninitialized_move_n T src i n dst j w = Returned () (src', dst', w') \<and>
           op_faults w' = [] \<and> alloc_faults w' = alloc_faults w"
  using assms
proof (induction n arbitrary: src i dst j w)
  case 0
  then show ?case by simp
next
  case (Suc n)
  from Suc.prems(2) obtain x where x: "slot_at src i = Some x"
    by (metis add.right_neutral not_None_eq zero_less_Suc)
  let ?s = "src[i := Some (moved_from T x)]"
  have "slot_at ?s (Suc i + k) \<noteq> None" if "k < n" for k
  proof -
    from that Suc.prems(2) have "slot_at src (i + Suc k) \<noteq> None" by blast
    then show ?thesis by (simp add: slot_at_update)
  qed
  then have "\<forall>k<n. slot_at ?s (Suc i + k) \<noteq> None" by blast
  from Suc.IH[OF _ this, of "count Moved 1 w" "Suc j" "dst[j := Some x]"] Suc.prems(1,3)
  obtain src' dst' w' where
    "uninitialized_move_n T ?s (Suc i) n (dst[j := Some x]) (Suc j) (count Moved 1 w)
       = Returned () (src', dst', w')" "op_faults w' = []" "alloc_faults w' = alloc_faults w"
    by auto
  with x Suc.prems(1,3) show ?case
    by (simp add: move_construct_quiet)
qed

lemma relocation_quiet:
  assumes "op_faults w = []"
    and "\<forall>k<n. slot_at src (i + k) \<noteq> None" and "j + n \<le> length dst"
  shows "\<exists>src' dst' w'.
           (if P then uninitialized_move_n T src i n dst j w
            else uninitialized_copy_n src i n dst j w) = Returned () (src', dst', w') \<and>
           op_faults w' = [] \<and> alloc_faults w' = alloc_faults w"
  using ucn_quiet[OF assms] umn_quiet[OF assms, of T] by (cases P) auto

lemma prefix_constructed_slots:
  "prefix_constructed v \<Longrightarrow> k < vsize v \<Longrightarrow> slot_at (buffer (data v)) k \<noteq> None"
  by (auto simp: prefix_constructed_iff slot_at_def)

lemma whole_block_room:
  "prefix_constructed v \<Longrightarrow> whole_block v \<Longrightarrow> vsize v \<noteq> Capacity v \<Longrightarrow>
     vsize v < length (buffer (data v))"
  by (simp add: prefix_constructed_iff whole_block_def Capacity_def)

lemma relocation_shape:
  assumes "(if P then uninitialized_move_n T src i n dst j w
            else uninitialized_copy_n src i n dst j w) = Returned () (src', dst', w')"
  shows "length src' = length src" "occupied src' = occupied src" "length dst' = length dst"
  using assms umn_Returned_shape[of T src i n dst j w src' dst' w']
    umn_Returned_state[of T src i n dst j w src' dst' w']
    ucn_Returned_state[of src i n dst j w src' dst' w']
  by (auto split: if_splits)

lemma EmplaceBack_quiet:
  fixes v :: "'a Vector"
  assumes pc: "prefix_constructed v" and wb: "whole_block v"
    and fit: "fits_size_t T (if vsize v = 0 then 1 else vsize v * 2)"
    and rd: "read_args (buffer (data v)) args \<noteq> None"
    and q: "op_faults w = []" "alloc_faults w = []"
  shows "returned (EmplaceBack T args v w)"
proof (cases "vsize v = Capacity v")
  case False
  from rd obtain a where ra: "read_args (buffer (data v)) args = Some a" by auto
  from whole_block_room[OF pc wb False] have "vsize v < length (buffer (data v))" .
  from construct_at_quiet[OF q(1) this, of T a] False ra show ?thesis
    by (auto simp: EmplaceBack_def)
next
  case True
  let ?nc = "if vsize v = 0 then 1 else vsize v * 2"
  let ?m = "\<lparr>buffer = replicate ?nc None, capacity = ?nc\<rparr> :: 'a RawMemory"
  from RawMemory_sized_quiet[OF q(2) fit] q(1) obtain w1 where
    a: "RawMemory_sized T ?nc w = Returned ?m w1" and q1: "op_faults w1 = []" by auto
  have src: "\<forall>k<vsize v. slot_at (buffer (data v)) (0 + k) \<noteq> None"
    using prefix_constructed_slots[OF pc] by simp
  have "0 + vsize v \<le> length (buffer ?m)" by simp
  from relocation_quiet[OF q1 src this, of "nothrow_move_constructible T \<or> \<not> copy_constructible T" T]
  obtain old new w2 where
    r: "(if nothrow_move_constructible T \<or> \<not> copy_constructible T
         then uninitialized_move_n T (buffer (data v)) 0 (vsize v) (buffer ?m) 0 w1
         else uninitialized_copy_n (buffer (data v)) 0 (vsize v) (buffer ?m) 0 w1)
         = Returned () (old, new, w2)" and q2: "op_faults w2 = []"
    by auto
  note sh = relocation_shape[OF r]
  from sh(3) have "vsize v < length new" by simp
  from rd read_args_shape[OF sh(1,2), of args] obtain a0 where
    ra: "read_args old args = Some a0" by auto
  from construct_at_quiet[OF q2 \<open>vsize v < length new\<close>, of T a0] obtain w3 where
    c: "construct_at T new (vsize v) a0 w2
          = Returned () (new[vsize v := Some (arg_value a0)], w3)" by auto
  show ?thesis
    unfolding EmplaceBack_def Let_def if_P[OF True] fits_size_t_new_capacity[OF fit] a
      outcome.case r prod.case ra option.case c
    by (simp add: split_def)
qed

text \<open>\<^verbatim>\<open>PushBack\<close> returns when \<^verbatim>\<open>EmplaceBack\<close> does.\<close>

lemma PushBack_returned:
  "returned (PushBack_copy T x v w) = returned (EmplaceBack T (Lvalue x) v w)"
  "returned (PushBack_move T x v w) = returned (EmplaceBack T (Rvalue x) v w)"
  by (auto simp: PushBack_copy_def PushBack_move_def split: outcome.splits)

lemma PushBack_quiet:
  fixes v :: "'a Vector"
  assumes "prefix_constructed v" and "whole_block v"
    and "fits_size_t T (if vsize v = 0 then 1 else vsize v * 2)"
    and "deref (buffer (data v)) x \<noteq> None"
    and "op_faults w = []" "alloc_faults w = []"
  shows "returned (PushBack_copy T x v w)" and "returned (PushBack_move T x v w)"
  using EmplaceBack_quiet[OF assms(1-3) _ assms(5,6), of "Lvalue x"]
    EmplaceBack_quiet[OF assms(1-3) _ assms(5,6), of "Rvalue x"] assms(4)
  by (simp_all add: PushBack_returned)

lemma mvn_quiet:
  assumes "op_faults w = []"
    and "\<forall>k. d \<le> k \<and> k \<le> d + n \<longrightarrow> slot_at buf k \<noteq> None"
  shows "returned (move_n T buf (Suc d) n d w)"
  using assms
proof (induction n arbitrary: buf d w)
  case 0
  then show ?case by simp
next
  case (Suc n)
  from Suc.prems(2) obtain x z where x: "slot_at buf (Suc d) = Some x" and z: "slot_at buf d = Some z"
    by (metis le_add1 le_refl not_None_eq Suc_le_mono add_Suc_right le0 le_SucI)
  let ?b = "buf[Suc d := Some (moved_from T x), d := Some x]"
  have "slot_at ?b k \<noteq> None" if "Suc d \<le> k" "k \<le> Suc d + n" for k
  proof -
    from that Suc.prems(2) have "slot_at buf k \<noteq> None" by simp
    then show ?thesis by (simp add: slot_at_update)
  qed
  then have "\<forall>k. Suc d \<le> k \<and> k \<le> Suc d + n \<longrightarrow> slot_at ?b k \<noteq> None" by blast
  from Suc.IH[OF _ this, of "count MoveAssigned 1 w"] x z Suc.prems(1) show ?case
    by (simp add: move_assign_quiet)
qed

lemma Erase_quiet:
  assumes "prefix_constructed v" and "index < vsize v" and "op_faults w = []"
  shows "returned (Erase T index v w)"
proof -
  let ?buf = "buffer (data v)"
  have "\<forall>k. index \<le> k \<and> k \<le> index + (vsize v - Suc index) \<longrightarrow> slot_at ?buf k \<noteq> None"
    using assms(1,2) by (auto simp: prefix_constructed_iff slot_at_def)
  from mvn_quiet[OF assms(3) this, of T] assms(2) show ?thesis
    by (cases "move_n T ?buf (Suc index) (vsize v - Suc index) index w")
       (auto simp: Erase_def std_move_def destroy_at_def)
qed

lemma shr_quiet:
  assumes "op_faults w = []"
    and "\<forall>k. index \<le> k \<and> k \<le> m \<longrightarrow> slot_at buf k \<noteq> None"
  shows "\<exists>b w'. shift_right T buf m index w = Returned () (b, w') \<and> op_faults w' = []"
  using assms
proof (induction m arbitrary: buf w)
  case 0
  then show ?case by simp
next
  case (Suc i)
  show ?case
  proof (cases "index \<le> i")
    case False
    then show ?thesis using Suc.prems(1) by simp
  next
    case True
    with Suc.prems(2) obtain x z where x: "slot_at buf i = Some x" and z: "slot_at buf (Suc i) = Some z"
      by (metis le_SucI le_refl not_None_eq)
    let ?b = "buf[i := Some (moved_from T x), Suc i := Some x]"
    have "slot_at ?b k \<noteq> None" if "index \<le> k" "k \<le> i" for k
    proof -
      from that Suc.prems(2) have "slot_at buf k \<noteq> None" by simp
      then show ?thesis by (simp add: slot_at_update)
    qed
    then have "\<forall>k. index \<le> k \<and> k \<le> i \<longrightarrow> slot_at ?b k \<noteq> None" by blast
    from Suc.IH[OF _ this, of "count MoveAssigned 1 w"] Suc.prems(1)
    obtain b w' where
      "shift_right T ?b i index (count MoveAssigned 1 w) = Returned () (b, w')" "op_faults w' = []"
      by auto
    with x z True Suc.prems(1) show ?thesis
      by (simp add: move_assign_quiet)
  qed
qed

lemma Reserve_quiet:
  fixes v :: "'a Vector"
  assumes pc: "prefix_constructed v" and fit: "fits_size_t T n"
    and q: "op_faults w = []" "alloc_faults w = []"
  shows "returned (Reserve T n v w)"
proof (cases "n \<le> Capacity v")
  case True
  then show ?thesis by (simp add: Reserve_def)
next
  case False
  let ?m = "\<lparr>buffer = replicate n None, capacity = n\<rparr> :: 'a RawMemory"
  from RawMemory_sized_quiet[OF q(2) fit] q(1) obtain w1 where
    a: "RawMemory_sized T n w = Returned ?m w1" and q1: "op_faults w1 = []" by auto
  have src: "\<forall>k<vsize v. slot_at (buffer (data v)) (0 + k) \<noteq> None"
    using prefix_constructed_slots[OF pc] by simp
  from pc False have "0 + vsize v \<le> length (buffer ?m)"
    by (simp add: prefix_constructed_iff Capacity_def)
  from relocation_quiet[OF q1 src this, of "nothrow_move_constructible T \<or> \<not> copy_constructible T" T]
  obtain old new w2 where
    r: "(if nothrow_move_constructible T \<or> \<not> copy_constructible T
         then uninitialized_move_n T (buffer (data v)) 0 (vsize v) (buffer ?m) 0 w1
         else uninitialized_copy_n (buffer (data v)) 0 (vsize v) (buffer ?m) 0 w1)
         = Returned () (old, new, w2)"
    by auto
  show ?thesis
    unfolding Reserve_def if_not_P[OF False] a outcome.case r prod.case
    by (simp add: split_def)
qed

lemma same_shape_slot:
  "length b = length buf \<Longrightarrow> occupied b = occupied buf \<Longrightarrow> slot_at buf k \<noteq> None \<Longrightarrow>
     slot_at b k \<noteq> None"
  using occupied_eq_nth[of b buf k] by (auto simp: slot_at_def split: if_splits)

lemma EmplaceWithRealloc_quiet:
  fixes v :: "'a Vector"
  assumes pc: "prefix_constructed v" and ix: "index \<le> vsize v"
    and fit: "fits_size_t T (if vsize v = 0 then 1 else vsize v * 2)"
    and rd: "read_args (buffer (data v)) args \<noteq> None"
    and q: "op_faults w = []" "alloc_faults w = []"
  shows "returned (EmplaceWithRealloc T index args v w)"
proof -
  let ?nc = "if vsize v = 0 then 1 else vsize v * 2"
  let ?m = "\<lparr>buffer = replicate ?nc None, capacity = ?nc\<rparr> :: 'a RawMemory"
  let ?buf = "buffer (data v)"
  from RawMemory_sized_quiet[OF q(2) fit] q(1) obtain w1 where
    a: "RawMemory_sized T ?nc w = Returned ?m w1" and q1: "op_faults w1 = []" by auto
  from ix have nlt: "\<not> vsize v < index" by simp
  have big: "vsize v < ?nc" by simp
  have src1: "\<forall>k<index. slot_at ?buf (0 + k) \<noteq> None"
    using prefix_constructed_slots[OF pc] ix by simp
  have src2: "\<forall>k<vsize v - index. slot_at ?buf (index + k) \<noteq> None"
    using prefix_constructed_slots[OF pc] by simp
  have fit1: "0 + index \<le> length (buffer ?m)" using ix big by simp
  show ?thesis
  proof (cases "nothrow_move_constructible T \<or> \<not> copy_constructible T")
    case True
    from umn_quiet[OF q1 src1 fit1, of T] obtain old1 new1 w2 where
      u1: "uninitialized_move_n T ?buf 0 index (buffer ?m) 0 w1 = Returned () (old1, new1, w2)"
      and q2: "op_faults w2 = []" by auto
    from umn_Returned_state[OF u1] have l1: "length new1 = ?nc" "length old1 = length ?buf"
      by simp_all
    from rd read_args_shape[OF l1(2) umn_Returned_occupied[OF u1], of args] obtain a0 where
      ra: "read_args old1 args = Some a0" by auto
    from l1(1) ix big have "index < length new1" by simp
    from construct_at_quiet[OF q2 this, of T a0] obtain w3 where
      c: "construct_at T new1 index a0 w2 = Returned () (new1[index := Some (arg_value a0)], w3)"
      and q3: "op_faults w3 = []" by auto
    have "\<forall>k<vsize v - index. slot_at old1 (index + k) \<noteq> None"
      using same_shape_slot[OF l1(2) umn_Returned_occupied[OF u1]] src2 by blast
    then have "\<forall>k<vsize v - index. slot_at (moved_out T old1 args) (index + k) \<noteq> None"
      by (simp add: slot_at_moved_out_None_iff)
    moreover have "index + 1 + (vsize v - index) \<le> length (new1[index := Some (arg_value a0)])"
      using l1(1) ix big by simp
    ultimately obtain old new w4 where
      u2: "uninitialized_move_n T (moved_out T old1 args) index (vsize v - index)
             (new1[index := Some (arg_value a0)]) (index + 1) w3 = Returned () (old, new, w4)"
      using umn_quiet[OF q3, of "vsize v - index" "moved_out T old1 args" index "index + 1"
          "new1[index := Some (arg_value a0)]" T]
      by auto
    show ?thesis
      unfolding EmplaceWithRealloc_def Let_def fits_size_t_new_capacity[OF fit] a outcome.case if_not_P[OF nlt] if_P[OF True]
        u1 prod.case ra option.case c u2
      by (simp add: split_def)
  next
    case False
    from ucn_quiet[OF q1 src1 fit1] obtain new1 w2 where
      u1: "uninitialized_copy_n ?buf 0 index (buffer ?m) 0 w1 = Returned () (?buf, new1, w2)"
      and q2: "op_faults w2 = []" by auto
    from ucn_Returned_state[OF u1] have l1: "length new1 = ?nc" by simp
    from rd obtain a0 where ra: "read_args ?buf args = Some a0" by auto
    from l1 ix big have "index < length new1" by simp
    from construct_at_quiet[OF q2 this, of T a0] obtain w3 where
      c: "construct_at T new1 index a0 w2 = Returned () (new1[index := Some (arg_value a0)], w3)"
      and q3: "op_faults w3 = []" by auto
    have "index + 1 + (vsize v - index) \<le> length (new1[index := Some (arg_value a0)])"
      using l1 ix big by simp
    moreover have "\<forall>k<vsize v - index. slot_at (moved_out T ?buf args) (index + k) \<noteq> None"
      using src2 by (simp add: slot_at_moved_out_None_iff)
    ultimately obtain new w4 where
      u2: "uninitialized_copy_n (moved_out T ?buf args) index (vsize v - index)
             (new1[index := Some (arg_value a0)]) (index + 1) w3
             = Returned () (moved_out T ?buf args, new, w4)"
      using ucn_quiet[OF q3, of "vsize v - index" "moved_out T ?buf args" index "index + 1"
          "new1[index := Some (arg_value a0)]"]
      by auto
    show ?thesis
      unfolding EmplaceWithRealloc_def Let_def fits_size_t_new_capacity[OF fit] a outcome.case if_not_P[OF nlt] if_not_P[OF False]
        u1 prod.case ra option.case c u2
      by (simp add: split_def)
  qed
qed

lemma EmplaceWithoutRealloc_quiet_outside:
  fixes v :: "'a Vector"
  assumes pc: "prefix_constructed v" and ix: "index \<le> vsize v"
    and len: "vsize v < length (buffer (data v))"
    and q: "op_faults w = []"
  shows "returned (EmplaceWithoutRealloc T index (external args) v w)"
proof -
  let ?buf = "buffer (data v)"
  from construct_from_quiet[OF q, of T args] obtain w1 where
    t: "construct_from T args w = Returned (arg_value args) w1" and q1: "op_faults w1 = []"
    by auto
  show ?thesis
  proof (cases "index < vsize v")
    case False
    with ix have "index < length ?buf" using len by simp
    from construct_at_quiet[OF q1 this, of T "MoveOf (arg_value args)"] obtain w2 where
      c: "construct_at T ?buf index (MoveOf (arg_value args)) w1
            = Returned () (?buf[index := Some (arg_value (MoveOf (arg_value args)))], w2)"
      by auto
    show ?thesis
      unfolding EmplaceWithoutRealloc_def read_args_external option.case Let_def
        moved_out_external t outcome.case if_not_P[OF False] c prod.case
      by simp
  next
    case True
    then have "vsize v - 1 < vsize v" by simp
    from prefix_constructed_slots[OF pc this] obtain x where
      x: "slot_at ?buf (vsize v - 1) = Some x" by auto
    from len have nle: "\<not> length ?buf \<le> vsize v" by simp
    let ?b0 = "?buf[vsize v - 1 := Some (moved_from T x), vsize v := Some x]"
    have "slot_at ?b0 k \<noteq> None" if "index \<le> k" "k \<le> vsize v - 1" for k
    proof -
      from that True have "k < vsize v" by simp
      from prefix_constructed_slots[OF pc this] show ?thesis
        by (simp add: slot_at_update)
    qed
    then have "\<forall>k. index \<le> k \<and> k \<le> vsize v - 1 \<longrightarrow> slot_at ?b0 k \<noteq> None" by blast
    from shr_quiet[OF _ this, of "count Moved 1 w1" T] q1 obtain b w3 where
      s: "shift_right T ?b0 (vsize v - 1) index (count Moved 1 w1) = Returned () (b, w3)"
      and q3: "op_faults w3 = []" by auto
    have "slot_at ?b0 index \<noteq> None"
      using prefix_constructed_slots[OF pc True] by (simp add: slot_at_update)
    with shr_Returned_occupied[OF s] obtain z where z: "slot_at b index = Some z"
      using same_shape_slot[of b ?b0 index] by auto
    show ?thesis
      unfolding EmplaceWithoutRealloc_def read_args_external option.case Let_def
        moved_out_external t outcome.case if_P[OF True] x
        if_not_P[OF nle] move_construct_quiet[OF q1] prod.case s z move_assign_quiet[OF q3]
      by simp
  qed
qed

lemma EmplaceWithoutRealloc_quiet:
  fixes v :: "'a Vector"
  assumes pc: "prefix_constructed v" and ix: "index \<le> vsize v"
    and len: "vsize v < length (buffer (data v))"
    and rd: "read_args (buffer (data v)) args \<noteq> None"
    and q: "op_faults w = []"
  shows "returned (EmplaceWithoutRealloc T index args v w)"
proof -
  let ?v1 = "with_buffer v (moved_out T (buffer (data v)) args)"
  from rd obtain a where ra: "read_args (buffer (data v)) args = Some a" by auto
  from construct_from_quiet[OF q, of T a] obtain w1 where
    t: "construct_from T a w = Returned (arg_value a) w1" by auto
  have "returned (EmplaceWithoutRealloc T index (external a) ?v1 w)"
    using pc ix len q
    by (intro EmplaceWithoutRealloc_quiet_outside) (simp_all add: moved_out_vector)
  with in_place_reduce[OF ra, of T index w] t show ?thesis by simp
qed

lemma Emplace_quiet:
  assumes "prefix_constructed v" and "whole_block v" and "index \<le> vsize v"
    and "fits_size_t T (if vsize v = 0 then 1 else vsize v * 2)"
    and "read_args (buffer (data v)) args \<noteq> None"
    and "op_faults w = []" "alloc_faults w = []"
  shows "returned (Emplace T index args v w)"
proof (cases "vsize v = Capacity v")
  case True
  with EmplaceWithRealloc_quiet[OF assms(1,3,4,5,6,7)] show ?thesis by (simp add: Emplace_def)
next
  case False
  from whole_block_room[OF assms(1,2) False]
    EmplaceWithoutRealloc_quiet[OF assms(1,3) _ assms(5,6)] False
  show ?thesis by (simp add: Emplace_def)
qed

text \<open>
  The hypothesis \<open>fits_size_t\<close> is needed: \<^verbatim>\<open>Allocate\<close> multiplies in \<^verbatim>\<open>size_t\<close>, so
  \<^verbatim>\<open>Reserve(n)\<close> with \<open>n * sizeof(T) = 2 ^ 64\<close> returns with capacity \<open>n\<close> over a block of
  no bytes, and the next append writes outside the block.
\<close>

lemma Reserve_beyond_size_t:
  "sizeof Str_nothrow = 32 \<and> \<not> fits_size_t Str_nothrow (2 ^ 59) \<and>
   block_slots Str_nothrow (2 ^ 59) = 0 \<and>
   leaves (Reserve Str_nothrow (2 ^ 59) (Vector_default :: string Vector) quiet)
     \<lparr>data = \<lparr>buffer = [], capacity = 2 ^ 59\<rparr>, vsize = 0\<rparr> \<and>
   \<not> returned (EmplaceBack Str_nothrow (Other ''a'')
                  \<lparr>data = \<lparr>buffer = [], capacity = 2 ^ 59\<rparr>, vsize = 0\<rparr> quiet) \<and>
   \<not> threw (EmplaceBack Str_nothrow (Other ''a'')
               \<lparr>data = \<lparr>buffer = [], capacity = 2 ^ 59\<rparr>, vsize = 0\<rparr> quiet)"
  by code_simp

lemma leavesD: "leaves r v \<Longrightarrow> \<exists>w. state_of r = Some (v, w)"
  by (cases r) auto

lemma reachable_by_preserved:
  "reachable_by every T v \<Longrightarrow>
     prefix_constructed v \<and> (\<not> every \<or> nothrow_move_assignable T \<longrightarrow> invariant v)"
proof (induction rule: reachable_by.induct)
  case r_default
  show ?case
    by (simp add: Vector_default_invariant invariant_prefix_constructed)
next
  case (r_sized n w v w')
  from Vector_sized_invariant[OF this] show ?case
    by (simp add: invariant_prefix_constructed)
next
  case (r_copy other w v w')
  from Vector_copy_invariant[OF r_copy.hyps(2)] show ?case
    by (simp add: invariant_prefix_constructed)
next
  case (r_move other v other')
  with Vector_move_states[OF r_move.hyps(2)] show ?case by simp
next
  case (r_moved_from other v other')
  with Vector_move_states[OF r_moved_from.hyps(2)] show ?case
    by (simp add: invariant_prefix_constructed)
next
  case (r_assign_copy st this rhs w st' w')
  with assign_copy_preserves[OF r_assign_copy.hyps(3)] show ?case by simp
next
  case (r_assign_move st this rhs p)
  with assign_move_states[OF r_assign_move.hyps(3), of st] show ?case by auto
next
  case (r_swap v other v' other')
  with Swap_states[OF r_swap.hyps(3)] show ?case by simp
next
  case (r_swapped v other v' other')
  with Swap_states[OF r_swapped.hyps(3)] show ?case by simp
next
  case (r_reserve v n w v' w')
  with Reserve_preserves[OF r_reserve.hyps(2)] show ?case by simp
next
  case (r_resize v n w v' w')
  with Resize_preserves[OF r_resize.hyps(2)] show ?case by simp
next
  case (r_push_copy v x w v' w')
  with EmplaceBack_preserves[OF r_push_copy.hyps(2)[unfolded PushBack_states]] show ?case by simp
next
  case (r_push_move v x w v' w')
  with EmplaceBack_preserves[OF r_push_move.hyps(2)[unfolded PushBack_states]] show ?case by simp
next
  case (r_pop v w v' w')
  with PopBack_preserves[OF r_pop.hyps(2)] show ?case by simp
next
  case (r_emplace_back v args w v' w')
  with EmplaceBack_preserves[OF r_emplace_back.hyps(2)] show ?case by simp
next
  case (r_emplace v index args w v' w')
  with Emplace_preserves[OF r_emplace.hyps(3) _ r_emplace.hyps(2)] show ?case
    by (auto simp: in_place_insert_threw_def)
next
  case (r_insert_copy v index x w v' w')
  with Emplace_preserves[OF r_insert_copy.hyps(3)[unfolded Insert_copy_def] _ r_insert_copy.hyps(2)]
  show ?case by (auto simp: in_place_insert_threw_def)
next
  case (r_insert_move v index x w v' w')
  with Emplace_preserves[OF r_insert_move.hyps(3)[unfolded Insert_move_def] _ r_insert_move.hyps(2)]
  show ?case by (auto simp: in_place_insert_threw_def)
next
  case (r_erase v index w v' w')
  with Erase_preserves[OF r_erase.hyps(2)] show ?case by simp
next
  case (r_write v index x)
  with write_preserves[OF _ r_write.hyps(2), of x] show ?case by simp
qed

section \<open>The invariant in the reachable states\<close>

text \<open>
  In every reachable state \<open>size \<le> capacity\<close> and the slots \<open>[0, size)\<close> hold objects.
\<close>

lemma reachable_elements_constructed:
  assumes "reachable T v"
  shows "vsize v \<le> Capacity v \<and> (\<forall>i<vsize v. slot_at (buffer (data v)) i \<noteq> None)"
  using reachable_by_preserved[OF assms]
  by (auto simp: prefix_constructed_iff Capacity_def slot_at_def)

lemma invariant_slots:
  assumes "invariant v"
  shows "vsize v \<le> Capacity v \<and>
         (\<forall>i<vsize v. slot_at (buffer (data v)) i \<noteq> None) \<and>
         (\<forall>i. vsize v \<le> i \<and> i < Capacity v \<longrightarrow> slot_at (buffer (data v)) i = None)"
  using assms by (auto simp: invariant_iff Capacity_def slot_at_def)

text \<open>
  The whole invariant of claim C3 holds in every reachable state of a vector whose
  element type cannot throw from its move assignment, and for every element type in
  every state reached without an in-place insertion before the end that throws: every
  other step, returning or throwing, keeps it.
\<close>

lemma invariant_with_nothrow_move_assignment:
  assumes "reachable T v" and "nothrow_move_assignable T"
  shows "vsize v \<le> Capacity v \<and>
         (\<forall>i<vsize v. slot_at (buffer (data v)) i \<noteq> None) \<and>
         (\<forall>i. vsize v \<le> i \<and> i < Capacity v \<longrightarrow> slot_at (buffer (data v)) i = None)"
  using reachable_by_preserved[OF assms(1)] assms(2) by (intro invariant_slots) simp

lemma invariant_apart_from_in_place_insert_failure:
  assumes "reachable_by False T v"
  shows "vsize v \<le> Capacity v \<and>
         (\<forall>i<vsize v. slot_at (buffer (data v)) i \<noteq> None) \<and>
         (\<forall>i. vsize v \<le> i \<and> i < Capacity v \<longrightarrow> slot_at (buffer (data v)) i = None)"
  using reachable_by_preserved[OF assms] by (intro invariant_slots) simp

text \<open>
  Claim C3 fails on the code. \<^verbatim>\<open>EmplaceWithoutRealloc\<close> move-constructs the slot
  \<open>size\<close> from the last element and then shifts by move assignment, without a handler:
  when an assignment throws, \<^verbatim>\<open>size_\<close> has not been incremented and the slot \<open>size\<close>
  keeps its object. A vector of one element \<open>a\<close> and capacity 2, reached by
  \<^verbatim>\<open>Reserve(2)\<close> and \<^verbatim>\<open>EmplaceBack\<close>, on which \<^verbatim>\<open>Insert(begin(), x)\<close> throws from the
  assignment of the new value, is left with size 1 and an object in slot 1, outside
  \<open>[0, size)\<close>. The destructor of the vector destroys one object and the block is
  released with the other still constructed. The other failure paths destroy what they
  have constructed: \<^verbatim>\<open>EmplaceBack\<close> in its handler, the \<^verbatim>\<open>std::uninitialized_\<close> algorithms
  in theirs.
\<close>

theorem in_place_insert_failure_breaks_invariant:
  "reachable Str_throwing (vec [''a''] 1) \<and>
   threw (Insert_copy Str_throwing 0 (Outside ''x'') (vec [''a''] 1) (failing_at 2)) \<and>
   leaves (Insert_copy Str_throwing 0 (Outside ''x'') (vec [''a''] 1) (failing_at 2))
     \<lparr>data = \<lparr>buffer = [Some [], Some ''a''], capacity = 2\<rparr>, vsize = 1\<rparr> \<and>
   reachable Str_throwing \<lparr>data = \<lparr>buffer = [Some [], Some ''a''], capacity = 2\<rparr>, vsize = 1\<rparr> \<and>
   vsize \<lparr>data = \<lparr>buffer = [Some [], Some ''a''], capacity = 2\<rparr>, vsize = 1\<rparr> = 1 \<and>
   Capacity \<lparr>data = \<lparr>buffer = [Some [], Some ''a''], capacity = 2\<rparr>, vsize = 1\<rparr> = 2 \<and>
   slot_at (buffer (data \<lparr>data = \<lparr>buffer = [Some [], Some ''a''], capacity = 2\<rparr>, vsize = 1\<rparr>)) 1
     = Some ''a'' \<and>
   tally (Vector_destroy \<lparr>data = \<lparr>buffer = [Some [], Some ''a''], capacity = 2\<rparr>, vsize = 1\<rparr>
            quiet) Destroyed = 1 \<and>
   tally (Vector_destroy \<lparr>data = \<lparr>buffer = [Some [], Some ''a''], capacity = 2\<rparr>, vsize = 1\<rparr>
            quiet) ReleasedLive = 1"
proof -
  let ?bad = "\<lparr>data = \<lparr>buffer = [Some [], Some ''a''], capacity = 2\<rparr>, vsize = 1\<rparr>"
  let ?ins = "Insert_copy Str_throwing 0 (Outside ''x'') (vec [''a''] 1) (failing_at 2)"
  have r0: "reachable Str_throwing (Vector_default :: string Vector)" by (rule r_default)
  have "leaves (Reserve Str_throwing 2 Vector_default quiet) (vec ([] :: string list) 2)"
    by code_simp
  from r_reserve[OF r0] leavesD[OF this]
  have r1: "reachable Str_throwing (vec ([] :: string list) 2)" by blast
  have "leaves (EmplaceBack Str_throwing (Other ''a'') (vec [] 2) quiet) (vec [''a''] 1)"
    by code_simp
  from r_emplace_back[OF r1] leavesD[OF this]
  have r2: "reachable Str_throwing (vec [''a''] 1)" by blast
  have le: "0 \<le> vsize (vec [''a''] 1)" by simp
  have t: "threw ?ins" by code_simp
  have l: "leaves ?ins ?bad" by code_simp
  from r_insert_copy[OF r2 le] leavesD[OF l]
  have r3: "reachable Str_throwing ?bad" by blast
  have d: "tally (Vector_destroy ?bad quiet) Destroyed = 1"
    "tally (Vector_destroy ?bad quiet) ReleasedLive = 1"
    by code_simp+
  from r2 t l r3 d show ?thesis by (simp add: slot_at_def Capacity_def)
qed

section \<open>Failures during a reallocating insertion or append\<close>

text \<open>
  When the existing elements are relocated by copy, a failure of \<^verbatim>\<open>EmplaceBack\<close> or of
  the reallocating \<^verbatim>\<open>Emplace\<close> leaves the vector as it was.
\<close>

lemma EmplaceBack_Threw_by_copy:
  assumes "\<not> (nothrow_move_constructible T \<or> \<not> copy_constructible T)"
    and "EmplaceBack T args v w = Threw e (v', w')"
  shows "v' = v"
  using assms unfolding EmplaceBack_def Let_def
  by (auto split: outcome.splits option.splits if_splits prod.splits
      dest!: ucn_Threw_src ucn_Returned_src_same construct_at_Threw)

lemma EmplaceWithRealloc_Threw_by_copy:
  assumes "\<not> (nothrow_move_constructible T \<or> \<not> copy_constructible T)"
    and "EmplaceWithRealloc T index args v w = Threw e (v', w')"
  shows "v' = v \<or> v' = with_buffer v (moved_out T (buffer (data v)) args)"
  using assms unfolding EmplaceWithRealloc_def Let_def
  by (auto split: outcome.splits option.splits if_splits prod.splits
      dest!: ucn_Threw_src ucn_Returned_src_same construct_at_Threw)

lemma Insert_copy_realloc_Threw_by_copy:
  assumes "\<not> (nothrow_move_constructible T \<or> \<not> copy_constructible T)"
    and "vsize v = Capacity v" and "Insert_copy T index x v w = Threw e (v', w')"
  shows "v' = v"
  using EmplaceWithRealloc_Threw_by_copy[OF assms(1), of index "Lvalue x" v w e v' w'] assms(2,3)
  by (simp add: Insert_copy_def Emplace_def)

text \<open>
  Claim C1 fails on the code. \<^verbatim>\<open>EmplaceWithRealloc\<close> catches nothing: when the
  construction of the new element throws, the elements already relocated into the new
  block are not destroyed before the block is released. With copy relocation (first
  line: \<open>[''a'', ''b'']\<close>, insertion at index 1, the copy of \<open>''a''\<close> succeeds and the
  construction of \<open>''x''\<close> throws) the vector is as before, one copy was made, no
  destructor ran and the block was released holding one live object. With move
  relocation (second line) the element moved to the new block is lost too: the vector's
  first element is left moved-from.
\<close>

theorem Emplace_realloc_failure_leaks:
  "map_option (\<lambda>(v, w). (v, tally w Copied, tally w Destroyed, tally w ReleasedLive))
     (state_of (Insert_copy Str_throwing 1 (Outside ''x'') (vec [''a'', ''b''] 0) (failing_at 1)))
     = Some (vec [''a'', ''b''] 0, 1, 0, 1) \<and>
   threw (Insert_copy Str_throwing 1 (Outside ''x'') (vec [''a'', ''b''] 0) (failing_at 1)) \<and>
   map_option (\<lambda>(v, w). (elements v, tally w Moved, tally w Destroyed, tally w ReleasedLive))
     (state_of (Insert_copy Str_nothrow 1 (Outside ''x'') (vec [''a'', ''b''] 0) (failing_at 0)))
     = Some ([Some [], Some ''b''], 1, 0, 1) \<and>
   threw (Insert_copy Str_nothrow 1 (Outside ''x'') (vec [''a'', ''b''] 0) (failing_at 0))"
  by code_simp

text \<open>
  Claim C2 fails on the code for an element type relocated by move. \<^verbatim>\<open>EmplaceBack\<close>
  relocates the existing elements before it constructs the new one: when that
  construction throws, the handler destroys the elements in the new block, and the old
  block, which stays the vector's storage, holds moved-from objects. Here
  \<^verbatim>\<open>PushBack(const T&)\<close> on the full vector \<open>[''a'', ''b'']\<close> throws in the copy of its
  argument: size and capacity are as before, two moves and two destructor calls were
  made, nothing leaked, and both elements are empty.
\<close>

theorem EmplaceBack_failure_after_move:
  "map_option (\<lambda>(v, w). (elements v, vsize v, Capacity v,
                          tally w Moved, tally w Destroyed, tally w ReleasedLive))
     (state_of (PushBack_copy Str_nothrow (Outside ''x'') (vec [''a'', ''b''] 0) (failing_at 0)))
     = Some ([Some [], Some []], 2, 2, 2, 2, 0) \<and>
   threw (PushBack_copy Str_nothrow (Outside ''x'') (vec [''a'', ''b''] 0) (failing_at 0)) \<and>
   elements (vec [''a'', ''b''] 0) = [Some ''a'', Some ''b'']"
  by code_simp

text \<open>
  Claim C7 fails on the code when the value inserted is an element of the vector itself
  (\<^verbatim>\<open>v.Insert(v.begin() + 1, v[0])\<close>), the vector is full and its elements are relocated
  by move. \<^verbatim>\<open>Insert\<close> takes the value by reference, and \<^verbatim>\<open>EmplaceWithRealloc\<close> moves
  the elements \<open>[0, index)\<close> into the new block before it constructs the new element
  from that reference, which names a moved-from object by then. On the full vector
  \<open>[''a'', ''b'']\<close> the insertion returns, and reading index 1 gives the empty string
  instead of \<open>''a''\<close> (first line). The in-place path constructs its temporary from the
  value before it shifts anything (second line), and the reallocating path of a type
  relocated by copy reads the untouched old block (third line): both insert \<open>''a''\<close>.
  \<^verbatim>\<open>PushBack(v[0])\<close> on the full vector appends the moved-from value in the same way
  (last line).
\<close>

theorem Insert_of_own_element_after_relocation:
  "map_option (\<lambda>(v, w). (elements v, at v 1))
     (state_of (Insert_copy Str_nothrow 1 (Element 0) (vec [''a'', ''b''] 0) quiet))
     = Some ([Some ''a'', Some [], Some ''b''], Some []) \<and>
   returned (Insert_copy Str_nothrow 1 (Element 0) (vec [''a'', ''b''] 0) quiet) \<and>
   at (vec [''a'', ''b''] 0) 0 = Some ''a'' \<and>
   map_option (\<lambda>(v, w). (elements v, at v 1))
     (state_of (Insert_copy Str_nothrow 1 (Element 0) (vec [''a'', ''b''] 1) quiet))
     = Some ([Some ''a'', Some ''a'', Some ''b''], Some ''a'') \<and>
   map_option (\<lambda>(v, w). (elements v, at v 1))
     (state_of (Insert_copy Str_throwing 1 (Element 0) (vec [''a'', ''b''] 0) quiet))
     = Some ([Some ''a'', Some ''a'', Some ''b''], Some ''a'') \<and>
   map_option (\<lambda>(v, w). elements v)
     (state_of (PushBack_copy Str_nothrow (Element 0) (vec [''a'', ''b''] 0) quiet))
     = Some [Some ''a'', Some ''b'', Some []]"
  by code_simp

section \<open>Capacity growth\<close>

lemma EmplaceBack_Returned_Capacity:
  assumes "EmplaceBack T args v w = Returned r (v', w')"
  shows "Capacity v' = (if vsize v = Capacity v then (if vsize v = 0 then 1 else vsize v * 2) else Capacity v)"
proof (cases "vsize v = Capacity v")
  case True
  from assms True obtain new_data :: "'a RawMemory" and w1 new' where
    "RawMemory_sized T (if vsize v = 0 then 1 else vsize v * 2) w = Returned new_data w1"
    "v' = \<lparr>data = new_data\<lparr>buffer := new'\<rparr>, vsize = vsize v + 1\<rparr>"
    by (rule EmplaceBack_growth_Returned)
  with RawMemory_sized_Returned[OF this(1)] True show ?thesis
    by (simp add: Capacity_def)
next
  case False
  with assms show ?thesis
    unfolding EmplaceBack_def
    by (auto split: outcome.splits option.splits prod.splits)
qed

text \<open>
  Claim C4. A successful \<^verbatim>\<open>EmplaceBack\<close>, \<^verbatim>\<open>PushBack(const T&)\<close> or \<^verbatim>\<open>PushBack(T&&)\<close>
  on a vector whose size equals its capacity \<open>c\<close> leaves capacity \<open>max 1 (2 * c)\<close>; an
  append into spare capacity leaves the capacity as it was. That these appends do return
  when nothing fails is \<open>EmplaceBack_quiet\<close> and \<open>PushBack_quiet\<close>.
\<close>

theorem EmplaceBack_capacity:
  "(\<forall>r v' w'. EmplaceBack T args v w = Returned r (v', w') \<longrightarrow>
      (vsize v = Capacity v \<longrightarrow> Capacity v' = max 1 (2 * Capacity v)) \<and>
      (vsize v < Capacity v \<longrightarrow> Capacity v' = Capacity v)) \<and>
   (\<forall>v' w'. PushBack_copy T x v w = Returned () (v', w') \<longrightarrow>
      (vsize v = Capacity v \<longrightarrow> Capacity v' = max 1 (2 * Capacity v)) \<and>
      (vsize v < Capacity v \<longrightarrow> Capacity v' = Capacity v)) \<and>
   (\<forall>v' w'. PushBack_move T x v w = Returned () (v', w') \<longrightarrow>
      (vsize v = Capacity v \<longrightarrow> Capacity v' = max 1 (2 * Capacity v)) \<and>
      (vsize v < Capacity v \<longrightarrow> Capacity v' = Capacity v))"
proof -
  have eb: "(vsize v = Capacity v \<longrightarrow> Capacity v' = max 1 (2 * Capacity v)) \<and>
      (vsize v < Capacity v \<longrightarrow> Capacity v' = Capacity v)"
    if "EmplaceBack T a v w = Returned r (v', w')" for a r v' w'
    using EmplaceBack_Returned_Capacity[OF that] by auto
  show ?thesis
    unfolding PushBack_copy_def PushBack_move_def
    by (intro conjI allI impI; (auto split: outcome.splits dest!: eb)?)
qed

theorem EmplaceBack_capacity_witness:
  "\<exists>r1 v1 w1 v2 w2 v3 w3 v4 w4 v5 w5 v6 w6.
     vsize (vec [''a''] 0) = Capacity (vec [''a''] 0) \<and> Capacity (vec [''a''] 0) = 1 \<and>
     EmplaceBack Str_throwing (Other ''b'') (vec [''a''] 0) quiet = Returned r1 (v1, w1) \<and>
     Capacity v1 = 2 \<and>
     PushBack_copy Str_throwing (Outside ''b'') (vec [''a''] 0) quiet = Returned () (v2, w2) \<and>
     Capacity v2 = 2 \<and>
     PushBack_move Str_nothrow (Outside ''b'') (vec [''a''] 0) quiet = Returned () (v3, w3) \<and>
     Capacity v3 = 2 \<and>
     vsize (vec ([] :: string list) 0) = Capacity (vec ([] :: string list) 0) \<and>
     Capacity (vec ([] :: string list) 0) = 0 \<and>
     PushBack_copy Str_nothrow (Outside ''b'') (vec [] 0) quiet = Returned () (v4, w4) \<and>
     Capacity v4 = 1 \<and>
     vsize (vec [''a''] 2) < Capacity (vec [''a''] 2) \<and> Capacity (vec [''a''] 2) = 3 \<and>
     PushBack_copy Str_throwing (Element 0) (vec [''a''] 2) quiet = Returned () (v5, w5) \<and>
     Capacity v5 = 3 \<and>
     PushBack_move Str_throwing (Outside ''b'') (vec [''a''] 2) quiet = Returned () (v6, w6) \<and>
     Capacity v6 = 3"
proof -
  let ?f = "vec [''a''] 0" and ?e = "vec ([] :: string list) 0" and ?s = "vec [''a''] 2"
  have full: "vsize ?f = Capacity ?f" "Capacity ?f = 1"
    and empty: "vsize ?e = Capacity ?e" "Capacity ?e = 0"
    and spare: "vsize ?s < Capacity ?s" "Capacity ?s = 3"
    by (simp_all add: vec_def Capacity_def)
  have "returned (EmplaceBack Str_throwing (Other ''b'') ?f quiet)" by code_simp
  then obtain r1 v1 w1 where
    1: "EmplaceBack Str_throwing (Other ''b'') ?f quiet = Returned r1 (v1, w1)"
    by (elim returnedE) auto
  have "returned (PushBack_copy Str_throwing (Outside ''b'') ?f quiet)" by code_simp
  then obtain v2 w2 where
    2: "PushBack_copy Str_throwing (Outside ''b'') ?f quiet = Returned () (v2, w2)"
    by (elim returnedE) auto
  have "returned (PushBack_move Str_nothrow (Outside ''b'') ?f quiet)" by code_simp
  then obtain v3 w3 where
    3: "PushBack_move Str_nothrow (Outside ''b'') ?f quiet = Returned () (v3, w3)"
    by (elim returnedE) auto
  have "returned (PushBack_copy Str_nothrow (Outside ''b'') ?e quiet)" by code_simp
  then obtain v4 w4 where
    4: "PushBack_copy Str_nothrow (Outside ''b'') ?e quiet = Returned () (v4, w4)"
    by (elim returnedE) auto
  have "returned (PushBack_copy Str_throwing (Element 0) ?s quiet)" by code_simp
  then obtain v5 w5 where
    5: "PushBack_copy Str_throwing (Element 0) ?s quiet = Returned () (v5, w5)"
    by (elim returnedE) auto
  have "returned (PushBack_move Str_throwing (Outside ''b'') ?s quiet)" by code_simp
  then obtain v6 w6 where
    6: "PushBack_move Str_throwing (Outside ''b'') ?s quiet = Returned () (v6, w6)"
    by (elim returnedE) auto
  from EmplaceBack_capacity[of Str_throwing "Other ''b''" ?f quiet "Outside ''b''"] 1 2 full
  have "Capacity v1 = 2" "Capacity v2 = 2" by simp_all
  moreover
  from EmplaceBack_capacity[of Str_nothrow "Other ''b''" ?f quiet "Outside ''b''"] 3 full
  have "Capacity v3 = 2" by simp
  moreover
  from EmplaceBack_capacity[of Str_nothrow "Other ''b''" ?e quiet "Outside ''b''"] 4 empty
  have "Capacity v4 = 1" by simp
  moreover
  from EmplaceBack_capacity[of Str_throwing "Other ''b''" ?s quiet "Element 0"] 5 spare
  have "Capacity v5 = 3" by simp
  moreover
  from EmplaceBack_capacity[of Str_throwing "Other ''b''" ?s quiet "Outside ''b''"] 6 spare
  have "Capacity v6 = 3" by simp
  ultimately show ?thesis using 1 2 3 4 5 6 full empty spare by blast
qed

section \<open>Self-assignment\<close>

text \<open>
  Claim C9. Copy-assigning a vector to itself is a no-op: the store (every vector's size,
  capacity and elements) and the world (no element was copied, constructed or destroyed,
  nothing was allocated) are as they were.
\<close>

theorem self_assignment_is_noop:
  "operator_assign_copy T this this st w = Returned () (st, w)"
  by (simp add: operator_assign_copy_def)

section \<open>What changes the capacity\<close>

lemma state_of_no_result [simp]: "state_of (no_result r) = state_of r"
  by (cases r) (simp_all add: no_result_def)

lemma Reserve_noop_keeps_Capacity:
  "state_of (Reserve T n v w) = Some (v', w') \<Longrightarrow> \<not> Capacity v < n \<Longrightarrow> Capacity v' = Capacity v"
  by (simp add: Reserve_def)

lemma assign_self_keeps:
  "state_of (at_address 0 (operator_assign_copy T 0 0 (two_vectors v v) w)) = Some (v', w') \<Longrightarrow>
     v' = v"
  by (simp add: operator_assign_copy_def at_address_def two_vectors_def)

lemma assign_copy_of_keeps_Capacity:
  assumes "state_of (at_address 0 (operator_assign_copy T 0 1 (two_vectors v rhs) w)) = Some (v', w')"
    and "\<not> Capacity v < vsize rhs"
  shows "Capacity v' = Capacity v"
proof -
  let ?st = "two_vectors v rhs"
  from assms(1) obtain st' where
    s: "state_of (operator_assign_copy T 0 1 ?st w) = Some (st', w')" and v': "v' = st' 0"
    by (cases "operator_assign_copy T 0 1 ?st w") (auto simp: at_address_def)
  from assms(2) have "vsize (?st 1) \<le> Capacity (?st 0)" by (simp add: two_vectors_def)
  from assign_copy_fits_keeps_Capacity[OF s this] v' show ?thesis
    by (simp add: two_vectors_def)
qed

lemma perform_keeps_Capacity:
  assumes "state_of (perform T opn v w) = Some (v', w')" and "\<not> may_change_capacity opn v"
  shows "Capacity v' = Capacity v"
proof (cases opn)
  case (Reserve_to n)
  with assms Reserve_noop_keeps_Capacity[of T n v w v' w'] show ?thesis by simp
next
  case (Resize_to n)
  with assms Resize_keeps_Capacity[of T n v w v' w'] show ?thesis by auto
next
  case (PushBack_of x)
  with assms EmplaceBack_spare_keeps_Capacity[of T "Lvalue x" v w v' w'] show ?thesis
    by (simp add: PushBack_states)
next
  case (PushBack_move_of x)
  with assms EmplaceBack_spare_keeps_Capacity[of T "Rvalue x" v w v' w'] show ?thesis
    by (simp add: PushBack_states)
next
  case (EmplaceBack_of args)
  with assms EmplaceBack_spare_keeps_Capacity[of T args v w v' w'] show ?thesis by simp
next
  case PopBack_last
  with assms PopBack_keeps_Capacity[of v w v' w'] show ?thesis by simp
next
  case (Emplace_at index args)
  with assms Emplace_spare_keeps_Capacity[of T index args v w v' w'] show ?thesis by simp
next
  case (Insert_at index x)
  with assms Emplace_spare_keeps_Capacity[of T index "Lvalue x" v w v' w'] show ?thesis
    by (simp add: Insert_copy_def)
next
  case (Insert_move_at index x)
  with assms Emplace_spare_keeps_Capacity[of T index "Rvalue x" v w v' w'] show ?thesis
    by (simp add: Insert_move_def)
next
  case (Erase_at index)
  with assms Erase_keeps_Capacity[of T index v w v' w'] show ?thesis by simp
next
  case (Write_at index x)
  with assms show ?thesis by (auto split: if_splits)
next
  case (Assign_copy_of rhs)
  with assms assign_copy_of_keeps_Capacity[of T v rhs w v' w'] show ?thesis by simp
next
  case Assign_self
  with assms assign_self_keeps[of T v w v' w'] show ?thesis by simp
qed (use assms in simp_all)

text \<open>
  Claim C10 fails on the code as it lists what changes the capacity: the public
  \<^verbatim>\<open>Swap\<close> exchanges the blocks of two vectors and their capacities with them, and is
  none of \<^verbatim>\<open>Reserve\<close>, a growing append or insert, an assignment or a move operation.
  A \<^verbatim>\<open>Resize\<close> beyond the capacity changes it too, through its call of \<^verbatim>\<open>Reserve\<close>.
\<close>

theorem Swap_changes_capacity:
  "Capacity (vec [''a''] 0) = 1 \<and> Capacity (vec ([] :: string list) 5) = 5 \<and>
   Capacity (fst (Swap (vec [''a''] 0) (vec ([] :: string list) 5))) = 5 \<and>
   Capacity (snd (Swap (vec [''a''] 0) (vec ([] :: string list) 5))) = 1 \<and>
   state_of (perform Str_nothrow (Swap_with (vec [] 5)) (vec [''a''] 0) quiet)
     = Some (vec [] 5, quiet) \<and>
   map_option (\<lambda>(v, w). (elements v, Capacity v))
     (state_of (Resize Str_nothrow 3 (vec [''a''] 0) quiet))
     = Some ([Some ''a'', Some [], Some []], 3)"
proof -
  have "map_option (\<lambda>(v, w). (elements v, Capacity v))
          (state_of (Resize Str_nothrow 3 (vec [''a''] 0) quiet))
        = Some ([Some ''a'', Some [], Some []], 3)"
    by code_simp
  then show ?thesis by (simp add: Swap_def vec_def Capacity_def)
qed

text \<open>
  Claim C10, with \<^verbatim>\<open>Swap\<close> added to the list. \<^verbatim>\<open>Resize\<close> to a smaller size, \<^verbatim>\<open>PopBack\<close>
  and \<^verbatim>\<open>Erase\<close> leave the capacity as it was, whether they return or throw. And whenever
  an operation on a vector, returning or throwing, leaves it with another capacity, the
  operation is \<^verbatim>\<open>Reserve\<close> beyond the capacity (also when a growing \<^verbatim>\<open>Resize\<close> calls it),
  an append or insertion into a full vector, a copy assignment from a source larger than
  the capacity, a move operation or \<^verbatim>\<open>Swap\<close>.
\<close>

theorem capacity_changes_only_by:
  "(\<forall>v' w'. state_of (Resize T n v w) = Some (v', w') \<longrightarrow> n < vsize v \<longrightarrow>
      Capacity v' = Capacity v) \<and>
   (\<forall>v' w'. state_of (PopBack v w) = Some (v', w') \<longrightarrow> Capacity v' = Capacity v) \<and>
   (\<forall>v' w'. state_of (Erase T index v w) = Some (v', w') \<longrightarrow> Capacity v' = Capacity v) \<and>
   (\<forall>v' w'. state_of (perform T opn v w) = Some (v', w') \<longrightarrow> Capacity v' \<noteq> Capacity v \<longrightarrow>
      may_change_capacity opn v)"
  using Resize_keeps_Capacity[of T n v w] PopBack_keeps_Capacity[of v w]
    Erase_keeps_Capacity[of T index v w] perform_keeps_Capacity[of T opn v w]
  by blast

theorem capacity_changes_only_by_witness:
  "\<exists>v1 w1 v2 w2 v3 w3 v4 w4 v5 w5 v6 w6 v7 w7.
     (1::nat) < vsize (vec [''a'', ''b''] 1) \<and> Capacity (vec [''a'', ''b''] 1) = 3 \<and>
     state_of (Resize Str_throwing 1 (vec [''a'', ''b''] 1) quiet) = Some (v1, w1) \<and>
     Capacity v1 = 3 \<and>
     state_of (PopBack (vec [''a'', ''b''] 1) quiet) = Some (v2, w2) \<and> Capacity v2 = 3 \<and>
     state_of (Erase Str_throwing 1 (vec [''a'', ''b''] 1) quiet) = Some (v3, w3) \<and>
     Capacity v3 = 3 \<and>
     state_of (perform Str_throwing (PushBack_of (Outside ''c'')) (vec [''a'', ''b''] 1) quiet)
       = Some (v4, w4) \<and>
     \<not> may_change_capacity (PushBack_of (Outside ''c'')) (vec [''a'', ''b''] 1) \<and> Capacity v4 = 3 \<and>
     state_of (perform Str_throwing (Insert_at 1 (Element 0)) (vec [''a'', ''b''] 1) (failing_at 1))
       = Some (v5, w5) \<and>
     \<not> may_change_capacity (Insert_at 1 (Element 0)) (vec [''a'', ''b''] 1) \<and> Capacity v5 = 3 \<and>
     state_of (perform Str_throwing (Assign_copy_of (vec [''x''] 0)) (vec [''a'', ''b''] 1) quiet)
       = Some (v6, w6) \<and>
     \<not> may_change_capacity (Assign_copy_of (vec [''x''] 0)) (vec [''a'', ''b''] 1) \<and>
     Capacity v6 = 3 \<and>
     state_of (perform Str_throwing (PushBack_of (Outside ''c'')) (vec [''a'', ''b''] 0) quiet)
       = Some (v7, w7) \<and>
     Capacity v7 \<noteq> Capacity (vec [''a'', ''b''] 0) \<and>
     may_change_capacity (PushBack_of (Outside ''c'')) (vec [''a'', ''b''] 0)"
proof -
  let ?v = "vec [''a'', ''b''] 1" and ?f = "vec [''a'', ''b''] 0"
  have cap: "Capacity ?v = 3" and size: "vsize ?v = 2" and capf: "Capacity ?f = 2"
    by (simp_all add: vec_def Capacity_def)
  have "state_of (Resize Str_throwing 1 ?v quiet) \<noteq> None" by code_simp
  then obtain v1 w1 where 1: "state_of (Resize Str_throwing 1 ?v quiet) = Some (v1, w1)" by auto
  have "state_of (PopBack ?v quiet) \<noteq> None" by code_simp
  then obtain v2 w2 where 2: "state_of (PopBack ?v quiet) = Some (v2, w2)" by auto
  have "state_of (Erase Str_throwing 1 ?v quiet) \<noteq> None" by code_simp
  then obtain v3 w3 where 3: "state_of (Erase Str_throwing 1 ?v quiet) = Some (v3, w3)" by auto
  have "state_of (perform Str_throwing (PushBack_of (Outside ''c'')) ?v quiet) \<noteq> None"
    by code_simp
  then obtain v4 w4 where
    4: "state_of (perform Str_throwing (PushBack_of (Outside ''c'')) ?v quiet) = Some (v4, w4)"
    by auto
  have "state_of (perform Str_throwing (Insert_at 1 (Element 0)) ?v (failing_at 1)) \<noteq> None"
    by code_simp
  then obtain v5 w5 where
    5: "state_of (perform Str_throwing (Insert_at 1 (Element 0)) ?v (failing_at 1)) = Some (v5, w5)"
    by auto
  have "state_of (perform Str_throwing (Assign_copy_of (vec [''x''] 0)) ?v quiet) \<noteq> None"
    by code_simp
  then obtain v6 w6 where
    6: "state_of (perform Str_throwing (Assign_copy_of (vec [''x''] 0)) ?v quiet) = Some (v6, w6)"
    by auto
  have "state_of (perform Str_throwing (PushBack_of (Outside ''c'')) ?f quiet) \<noteq> None"
    by code_simp
  then obtain v7 w7 where
    7: "state_of (perform Str_throwing (PushBack_of (Outside ''c'')) ?f quiet) = Some (v7, w7)"
    by auto
  have n4: "\<not> may_change_capacity (PushBack_of (Outside ''c'')) ?v"
    and n5: "\<not> may_change_capacity (Insert_at 1 (Element 0)) ?v"
    and n6: "\<not> may_change_capacity (Assign_copy_of (vec [''x''] 0)) ?v"
    and y7: "may_change_capacity (PushBack_of (Outside ''c'')) ?f"
    by (simp_all add: vec_def Capacity_def)
  note a = capacity_changes_only_by[where T = Str_throwing and n = 1 and v = ?v and w = quiet
      and index = 1]
  have "Capacity v1 = 3" using a[of "PushBack_of (Outside ''c'')"] 1 size cap by simp
  moreover have "Capacity v2 = 3" using a[of "PushBack_of (Outside ''c'')"] 2 cap by simp
  moreover have "Capacity v3 = 3" using a[of "PushBack_of (Outside ''c'')"] 3 cap by simp
  moreover have "Capacity v4 = 3" using a[of "PushBack_of (Outside ''c'')"] 4 n4 cap by auto
  moreover have "Capacity v5 = 3"
    using capacity_changes_only_by[where T = Str_throwing and v = ?v and w = "failing_at 1"
        and opn = "Insert_at 1 (Element 0)"] 5 n5 cap by auto
  moreover have "Capacity v6 = 3"
    using a[of "Assign_copy_of (vec [''x''] 0)"] 6 n6 cap by auto
  moreover have "Capacity v7 \<noteq> Capacity ?f"
  proof -
    have "leaves (perform Str_throwing (PushBack_of (Outside ''c'')) ?f quiet)
            (vec [''a'', ''b'', ''c''] 1)" by code_simp
    from leavesD[OF this] 7 have "v7 = vec [''a'', ''b'', ''c''] 1" by simp
    then show ?thesis by (simp add: vec_def Capacity_def)
  qed
  ultimately show ?thesis using 1 2 3 4 5 6 7 n4 n5 n6 y7 size cap by (simp del: perform.simps)
qed

end
